theory Spec2Isabelle
  imports Main
begin

section \<open>Data model\<close>

text \<open>
  A cell of the JavaScript array \<^verbatim>\<open>squares\<close> holds \<^verbatim>\<open>'X'\<close>, \<^verbatim>\<open>'O'\<close> or \<^verbatim>\<open>null\<close>.
  A mark is one of the two strings; \<open>None\<close> stands for every falsy cell value
  (\<^verbatim>\<open>null\<close>, and \<^verbatim>\<open>undefined\<close> for a read past the end of the array).
\<close>

datatype mark = MarkX | MarkO

type_synonym cell = "mark option"

type_synonym board = "cell list"

text \<open>\<^verbatim>\<open>squares[i]\<close>: a read past the end of a JavaScript array is \<^verbatim>\<open>undefined\<close>.\<close>

definition cell_at :: "board \<Rightarrow> nat \<Rightarrow> cell" where
  "cell_at squares i = (if i < length squares then squares ! i else None)"

text \<open>
  \<^verbatim>\<open>next[i] = v\<close> on a copy of the array: inside the array the cell is replaced,
  past its end JavaScript extends the array, the cells between being holes.
\<close>

definition js_set :: "board \<Rightarrow> nat \<Rightarrow> mark \<Rightarrow> board" where
  "js_set squares i v =
     (if i < length squares then squares[i := Some v]
      else squares @ replicate (i - length squares) None @ [Some v])"

section \<open>Rules evaluator\<close>

definition lines :: "(nat \<times> nat \<times> nat) list" where
  "lines =
     [(0, 1, 2), (3, 4, 5), (6, 7, 8),
      (0, 3, 6), (1, 4, 7), (2, 5, 8),
      (0, 4, 8), (2, 4, 6)]"

text \<open>The test of the \<^verbatim>\<open>if\<close> inside the loop of \<^verbatim>\<open>calculateWinner\<close>.\<close>

definition line_complete :: "board \<Rightarrow> nat \<times> nat \<times> nat \<Rightarrow> bool" where
  "line_complete squares l =
     (case l of (a, b, c) \<Rightarrow>
        cell_at squares a \<noteq> None \<and> cell_at squares a = cell_at squares b
        \<and> cell_at squares b = cell_at squares c)"

text \<open>The \<^verbatim>\<open>for (const [a, b, c] of lines)\<close> loop with its early return.\<close>

fun winner_loop :: "board \<Rightarrow> (nat \<times> nat \<times> nat) list \<Rightarrow> cell" where
  "winner_loop squares [] = None"
| "winner_loop squares (l # rest) =
     (if line_complete squares l then cell_at squares (fst l)
      else winner_loop squares rest)"

definition calculateWinner :: "board \<Rightarrow> cell" where
  "calculateWinner squares = winner_loop squares lines"

definition getAvailableMoves :: "board \<Rightarrow> nat list" where
  "getAvailableMoves squares =
     filter (\<lambda>i. cell_at squares i = None) [0 ..< length squares]"

section \<open>Minimax\<close>

text \<open>The object \<^verbatim>\<open>{ index, score }\<close>; a terminal result has no \<^verbatim>\<open>index\<close>.\<close>

record result =
  index :: "nat option"
  score :: int

text \<open>The running best score starts at \<^verbatim>\<open>-Infinity\<close> or \<^verbatim>\<open>Infinity\<close>.\<close>

datatype bound = NegInfinity | Finite int | PosInfinity

fun above :: "int \<Rightarrow> bound \<Rightarrow> bool" where
  "above s NegInfinity = True"
| "above s (Finite b) = (s > b)"
| "above s PosInfinity = False"

fun below :: "int \<Rightarrow> bound \<Rightarrow> bool" where
  "below s NegInfinity = False"
| "below s (Finite b) = (s < b)"
| "below s PosInfinity = True"

text \<open>The two selection loops: \<^verbatim>\<open>for (const m of moves) if (m.score > bestScore) ...\<close>.\<close>

fun maximize :: "bound \<Rightarrow> result \<Rightarrow> result list \<Rightarrow> result" where
  "maximize bestScore bestMove [] = bestMove"
| "maximize bestScore bestMove (m # ms) =
     (if above (score m) bestScore then maximize (Finite (score m)) m ms
      else maximize bestScore bestMove ms)"

fun minimize :: "bound \<Rightarrow> result \<Rightarrow> result list \<Rightarrow> result" where
  "minimize bestScore bestMove [] = bestMove"
| "minimize bestScore bestMove (m # ms) =
     (if below (score m) bestScore then minimize (Finite (score m)) m ms
      else minimize bestScore bestMove ms)"

text \<open>
  The number of empty cells: every recursive call of \<^verbatim>\<open>minimax\<close> fills one of them.
\<close>

definition count_empty :: "board \<Rightarrow> nat" where
  "count_empty squares = length (getAvailableMoves squares)"

lemma getAvailableMoves_set:
  "set (getAvailableMoves b) = {i. i < length b \<and> b ! i = None}"
  by (auto simp: getAvailableMoves_def cell_at_def)

lemma count_empty_filter: "count_empty b = length (filter (\<lambda>c. c = None) b)"
proof -
  have "getAvailableMoves b = filter ((\<lambda>c. c = None) \<circ> nth b) [0 ..< length b]"
    unfolding getAvailableMoves_def by (rule filter_cong) (auto simp: cell_at_def)
  then have "length (getAvailableMoves b) =
      length (filter (\<lambda>c. c = None) (map (nth b) [0 ..< length b]))"
    by (simp add: filter_map)
  then show ?thesis by (simp add: count_empty_def map_nth)
qed

lemma filter_update_less:
  "i < length xs \<Longrightarrow> xs ! i = None \<Longrightarrow>
   Suc (length (filter (\<lambda>c. c = None) (xs[i := Some v]))) = length (filter (\<lambda>c. c = None) xs)"
proof (induction xs arbitrary: i)
  case Nil
  then show ?case by simp
next
  case (Cons x xs)
  then show ?case by (cases i) auto
qed

lemma count_empty_js_set:
  "idx \<in> set (getAvailableMoves b) \<Longrightarrow> Suc (count_empty (js_set b idx p)) = count_empty b"
  by (simp add: getAvailableMoves_set count_empty_filter js_set_def filter_update_less)

lemma count_empty_decreases:
  "idx \<in> set (getAvailableMoves b) \<Longrightarrow> count_empty (js_set b idx p) < count_empty b"
  using count_empty_js_set [of idx b p] by simp

text \<open>
  The parameter \<^verbatim>\<open>depth\<close> and the scores are JavaScript numbers, here integers. The
  source's \<^verbatim>\<open>10 - depth\<close>, \<^verbatim>\<open>depth - 10\<close> and \<^verbatim>\<open>depth + 1\<close> are exact on integers of
  magnitude up to \<open>2 ^ 53\<close> and are rounded beyond, so the function below is the code's
  for depths within that range; a search started at the default depth 0 reaches depth 9
  at most.
\<close>

function minimax :: "board \<Rightarrow> mark \<Rightarrow> mark \<Rightarrow> mark \<Rightarrow> int \<Rightarrow> result" where
  "minimax squares currentPlayer aiPlayer humanPlayer depth =
     (let winner = calculateWinner squares in
      if winner = Some aiPlayer then \<lparr>index = None, score = 10 - depth\<rparr>
      else if winner = Some humanPlayer then \<lparr>index = None, score = depth - 10\<rparr>
      else
        let avail = getAvailableMoves squares in
        if length avail = 0 then \<lparr>index = None, score = 0\<rparr>
        else
          let moves =
            map (\<lambda>idx.
                  \<lparr>index = Some idx,
                   score = score (minimax (js_set squares idx currentPlayer)
                                    (if currentPlayer = aiPlayer then humanPlayer else aiPlayer)
                                    aiPlayer humanPlayer (depth + 1))\<rparr>)
                avail
          in
          if currentPlayer = aiPlayer then maximize NegInfinity (moves ! 0) moves
          else minimize PosInfinity (moves ! 0) moves)"
  by pat_completeness auto

termination minimax
  by (relation "measure (\<lambda>(squares, currentPlayer, aiPlayer, humanPlayer, depth).
        count_empty squares)")
     (simp_all add: count_empty_decreases)

declare minimax.simps [simp del]

text \<open>
  The call of the AI move effect, \<^verbatim>\<open>minimax(squares, aiPlayer, aiPlayer, humanPlayer)\<close>
  followed by \<^verbatim>\<open>best?.index\<close>: the computer is to move and maximizes, the depth
  takes its default 0, and only the index of the result is kept.
\<close>

definition chooseMove :: "board \<Rightarrow> mark \<Rightarrow> mark \<Rightarrow> nat option" where
  "chooseMove squares aiMark humanMark = index (minimax squares aiMark aiMark humanMark 0)"

section \<open>Game controller\<close>

datatype mode = AI | HUMAN

record scores =
  wins_X :: nat
  wins_O :: nat
  draws :: nat

record app =
  squares :: board
  xIsNext :: bool
  mode :: mode
  scores :: scores
  gameOver :: bool
  statusBanner :: string

definition initial_app :: app where
  "initial_app =
     \<lparr>squares = replicate 9 None, xIsNext = True, mode = AI,
      scores = \<lparr>wins_X = 0, wins_O = 0, draws = 0\<rparr>,
      gameOver = False, statusBanner = []\<rparr>"

definition currentPlayer :: "app \<Rightarrow> mark" where
  "currentPlayer s = (if xIsNext s then MarkX else MarkO)"

definition aiPlayer :: mark where
  "aiPlayer = MarkO"

definition humanPlayer :: mark where
  "humanPlayer = MarkX"

definition mark_name :: "mark \<Rightarrow> string" where
  "mark_name m = (case m of MarkX \<Rightarrow> ''X'' | MarkO \<Rightarrow> ''O'')"

definition isDraw :: "app \<Rightarrow> bool" where
  "isDraw s =
     (calculateWinner (squares s) = None \<and> length (getAvailableMoves (squares s)) = 0)"

text \<open>The effect that updates \<^verbatim>\<open>gameOver\<close>, the banner and the score tally.\<close>

definition statusEffect :: "app \<Rightarrow> app" where
  "statusEffect s =
     (case calculateWinner (squares s) of
        Some w \<Rightarrow>
          s\<lparr>gameOver := True, statusBanner := mark_name w @ '' wins!'',
            scores := (case w of
                         MarkX \<Rightarrow> (scores s)\<lparr>wins_X := wins_X (scores s) + 1\<rparr>
                       | MarkO \<Rightarrow> (scores s)\<lparr>wins_O := wins_O (scores s) + 1\<rparr>)\<rparr>
      | None \<Rightarrow>
          if isDraw s then
            s\<lparr>gameOver := True, statusBanner := ''It's a draw!'',
              scores := (scores s)\<lparr>draws := draws (scores s) + 1\<rparr>\<rparr>
          else
            s\<lparr>gameOver := False,
              statusBanner := mark_name (currentPlayer s) @ '''s turn''\<rparr>)"

text \<open>
  The AI move effect, at the moment its timer fires. The callback reads the board of
  the render that scheduled it; a change of the board cancels the timer.
\<close>

definition aiMoveEffect :: "app \<Rightarrow> app" where
  "aiMoveEffect s =
     (if mode s = AI \<and> \<not> gameOver s \<and> \<not> xIsNext s then
        let best = minimax (squares s) aiPlayer aiPlayer humanPlayer 0;
            aiIndex = index best
        in case aiIndex of
             None \<Rightarrow> s
           | Some i \<Rightarrow>
               if cell_at (squares s) i = None then
                 s\<lparr>squares := js_set (squares s) i aiPlayer, xIsNext := True\<rparr>
               else s
      else s)"

definition handleSquareClick :: "app \<Rightarrow> nat \<Rightarrow> app" where
  "handleSquareClick s i =
     (if gameOver s \<or> cell_at (squares s) i \<noteq> None \<or> (mode s = AI \<and> \<not> xIsNext s) then s
      else s\<lparr>squares := js_set (squares s) i (currentPlayer s), xIsNext := \<not> xIsNext s\<rparr>)"

definition startNewRound :: "app \<Rightarrow> app" where
  "startNewRound s =
     s\<lparr>squares := replicate 9 None, xIsNext := True,
       statusBanner := ''X's turn'', gameOver := False\<rparr>"

definition resetGame :: "app \<Rightarrow> app" where
  "resetGame s =
     s\<lparr>squares := replicate 9 None, xIsNext := True, mode := AI,
       scores := \<lparr>wins_X = 0, wins_O = 0, draws = 0\<rparr>,
       statusBanner := ''X's turn'', gameOver := False\<rparr>"

definition changeMode :: "app \<Rightarrow> mode \<Rightarrow> app" where
  "changeMode s newMode = startNewRound (s\<lparr>mode := newMode\<rparr>)"

text \<open>The operations that can change the state of the controller.\<close>

datatype event =
  Click nat | AiTimer | StatusUpdate | NewRound | Reset | ChangeMode mode

fun step :: "app \<Rightarrow> event \<Rightarrow> app" where
  "step s (Click i) = handleSquareClick s i"
| "step s AiTimer = aiMoveEffect s"
| "step s StatusUpdate = statusEffect s"
| "step s NewRound = startNewRound s"
| "step s Reset = resetGame s"
| "step s (ChangeMode m) = changeMode s m"

fun clears_board :: "event \<Rightarrow> bool" where
  "clears_board NewRound = True"
| "clears_board Reset = True"
| "clears_board (ChangeMode m) = True"
| "clears_board _ = False"

section \<open>Notions used to state the properties\<close>

text \<open>A line is held by a mark when its three cells hold that mark.\<close>

definition line_holds :: "board \<Rightarrow> nat \<times> nat \<times> nat \<Rightarrow> mark \<Rightarrow> bool" where
  "line_holds b l m =
     (case l of (i, j, k) \<Rightarrow>
        cell_at b i = Some m \<and> cell_at b j = Some m \<and> cell_at b k = Some m)"

definition occupied :: "board \<Rightarrow> nat" where
  "occupied b = length (filter (\<lambda>c. c \<noteq> None) b)"

text \<open>The score that the recursive call of \<^verbatim>\<open>minimax\<close> for the move \<open>idx\<close> returns.\<close>

definition child_score :: "board \<Rightarrow> mark \<Rightarrow> mark \<Rightarrow> mark \<Rightarrow> int \<Rightarrow> nat \<Rightarrow> int" where
  "child_score b p ai hu d idx =
     score (minimax (js_set b idx p) (if p = ai then hu else ai) ai hu (d + 1))"

text \<open>
  A bounded search for a way in which \<open>ai\<close> avoids losing: it has not lost, and
  either the game is over, or it is to move and some move keeps the property, or the
  other side is to move and every move keeps it. The moves of \<open>ai\<close> are tried in a
  given order, up to the first that succeeds.
\<close>

fun first_such :: "('a \<Rightarrow> bool) \<Rightarrow> 'a list \<Rightarrow> bool" where
  "first_such P [] = False"
| "first_such P (x # xs) = (if P x then True else first_such P xs)"

fun each_such :: "('a \<Rightarrow> bool) \<Rightarrow> 'a list \<Rightarrow> bool" where
  "each_such P [] = True"
| "each_such P (x # xs) = (if P x then each_such P xs else False)"

fun holds_search :: "nat \<Rightarrow> nat list \<Rightarrow> board \<Rightarrow> mark \<Rightarrow> mark \<Rightarrow> mark \<Rightarrow> bool" where
  "holds_search 0 order b p ai hu = False"
| "holds_search (Suc n) order b p ai hu =
     (if calculateWinner b = Some ai then True
      else if calculateWinner b = Some hu then False
      else if getAvailableMoves b = [] then True
      else if p = ai then
        first_such (\<lambda>i. holds_search n order (js_set b i p) hu ai hu)
          (filter (\<lambda>i. cell_at b i = None \<and> i < length b) order)
      else
        each_such (\<lambda>i. holds_search n order (js_set b i p) ai ai hu) (getAvailableMoves b))"

declare holds_search.simps [simp del]

text \<open>
  The number of plies after which \<open>ai\<close> has lost when both sides play as well as they
  can: \<open>ai\<close> avoids the loss when it can and delays it as long as possible otherwise,
  the other side wins as soon as possible. \<open>None\<close>: \<open>ai\<close> does not lose.
\<close>

fun latest :: "nat option list \<Rightarrow> nat option" where
  "latest [] = Some 0"
| "latest (None # ds) = None"
| "latest (Some k # ds) = (case latest ds of None \<Rightarrow> None | Some m \<Rightarrow> Some (max k m))"

fun earliest :: "nat option list \<Rightarrow> nat option" where
  "earliest [] = None"
| "earliest (None # ds) = earliest ds"
| "earliest (Some k # ds) = (case earliest ds of None \<Rightarrow> Some k | Some m \<Rightarrow> Some (min k m))"

function loss_in :: "board \<Rightarrow> mark \<Rightarrow> mark \<Rightarrow> mark \<Rightarrow> nat option" where
  "loss_in b p ai hu =
     (if calculateWinner b = Some ai then None
      else if calculateWinner b = Some hu then Some 0
      else if getAvailableMoves b = [] then None
      else
        let ds = map (\<lambda>i. loss_in (js_set b i p) (if p = ai then hu else ai) ai hu)
                   (getAvailableMoves b)
        in map_option Suc (if p = ai then latest ds else earliest ds))"
  by pat_completeness auto

termination loss_in
  by (relation "measure (\<lambda>(b, p, ai, hu). count_empty b)")
     (simp_all add: count_empty_decreases)

declare loss_in.simps [simp del]

text \<open>The value of \<open>loss_in\<close> after the move \<open>idx\<close> of the player \<open>p\<close>.\<close>

definition child_loss :: "board \<Rightarrow> mark \<Rightarrow> mark \<Rightarrow> mark \<Rightarrow> nat \<Rightarrow> nat option" where
  "child_loss b p ai hu idx = loss_in (js_set b idx p) (if p = ai then hu else ai) ai hu"

text \<open>
  Play-outs from the empty board in which \<open>ai\<close> moves as the engine chooses and
  \<open>hu\<close> makes any legal move; either side may begin. A state is the board and the
  side to move, and no move is made once a line is complete.
\<close>

inductive playout :: "mark \<Rightarrow> mark \<Rightarrow> board \<Rightarrow> mark \<Rightarrow> bool" for ai hu :: mark where
  start: "p = ai \<or> p = hu \<Longrightarrow> playout ai hu (replicate 9 None) p"
| engine: "playout ai hu b ai \<Longrightarrow> calculateWinner b = None \<Longrightarrow>
     chooseMove b ai hu = Some i \<Longrightarrow> playout ai hu (js_set b i ai) hu"
| free: "playout ai hu b hu \<Longrightarrow> calculateWinner b = None \<Longrightarrow>
     i \<in> set (getAvailableMoves b) \<Longrightarrow> playout ai hu (js_set b i hu) ai"

fun other :: "mark \<Rightarrow> mark" where
  "other MarkX = MarkO"
| "other MarkO = MarkX"

text \<open>Play-outs in which the engine chooses the moves of both sides.\<close>

inductive selfplay :: "board \<Rightarrow> mark \<Rightarrow> bool" where
  start: "selfplay (replicate 9 None) p"
| engine: "selfplay b p \<Longrightarrow> calculateWinner b = None \<Longrightarrow>
     chooseMove b p (other p) = Some i \<Longrightarrow> selfplay (js_set b i p) (other p)"

text \<open>
  The score of \<open>minimax\<close> is negative exactly when \<open>ai\<close> loses, and then it tells
  the number of plies to the loss.
\<close>

definition score_fits :: "int \<Rightarrow> int \<Rightarrow> nat \<Rightarrow> nat option \<Rightarrow> bool" where
  "score_fits s d e l =
     (case l of None \<Rightarrow> 0 \<le> s | Some k \<Rightarrow> s = d + int k - 10 \<and> k \<le> e)"

text \<open>A state of the controller in which the AI is to move.\<close>

definition scenario_state :: app where
  "scenario_state =
     \<lparr>squares = [Some MarkX, Some MarkX, None, None, Some MarkO, None, None, None, None],
      xIsNext = False, mode = AI, scores = \<lparr>wins_X = 0, wins_O = 0, draws = 0\<rparr>,
      gameOver = False, statusBanner = ''O's turn''\<rparr>"

section \<open>Legal moves\<close>

lemma getAvailableMoves_sorted: "sorted_wrt (<) (getAvailableMoves b)"
  unfolding getAvailableMoves_def by (rule sorted_wrt_filter) simp

lemma getAvailableMoves_length: "length (getAvailableMoves b) + occupied b = length b"
proof -
  have "length (getAvailableMoves b) = length (filter (\<lambda>c. c = None) b)"
    using count_empty_filter [of b] by (simp add: count_empty_def)
  then show ?thesis
    unfolding occupied_def using sum_length_filter_compl [of "\<lambda>c. c = None" b] by simp
qed

text \<open>
  C3. On a board of 9 cells, \<open>getAvailableMoves\<close> returns exactly the indices of the
  empty cells, in strictly ascending order; there are 9 minus the number of occupied
  cells of them, none is the index of an occupied cell, and the list is empty when the
  board is full.
\<close>

theorem getAvailableMoves_correct:
  assumes "length b = 9"
  shows "set (getAvailableMoves b) = {i. i < 9 \<and> cell_at b i = None}
     \<and> sorted_wrt (<) (getAvailableMoves b)
     \<and> length (getAvailableMoves b) = 9 - occupied b
     \<and> (\<forall>i \<in> set (getAvailableMoves b). cell_at b i = None)
     \<and> (occupied b = 9 \<longrightarrow> getAvailableMoves b = [])"
proof -
  have s: "set (getAvailableMoves b) = {i. i < 9 \<and> cell_at b i = None}"
    using assms by (auto simp: getAvailableMoves_def)
  have l: "length (getAvailableMoves b) = 9 - occupied b"
    using getAvailableMoves_length [of b] assms by simp
  have f: "occupied b = 9 \<longrightarrow> getAvailableMoves b = []"
    using l by auto
  show ?thesis using s l f getAvailableMoves_sorted [of b] by simp
qed

theorem getAvailableMoves_correct_witness:
  "length [Some MarkX, None, Some MarkO, None, None, Some MarkX, None, None, None] = 9
   \<and> set (getAvailableMoves
        [Some MarkX, None, Some MarkO, None, None, Some MarkX, None, None, None])
       = {1, 3, 4, 6, 7, 8}
   \<and> length (getAvailableMoves
        [Some MarkX, None, Some MarkO, None, None, Some MarkX, None, None, None]) = 6"
proof -
  let ?b = "[Some MarkX, None, Some MarkO, None, None, Some MarkX, None, None, None]"
  have h: "length ?b = 9" by simp
  have o: "occupied ?b = 3" by (simp add: occupied_def)
  have m: "getAvailableMoves ?b = [1, 3, 4, 6, 7, 8]" by code_simp
  show ?thesis using h o m getAvailableMoves_correct [OF h] by simp
qed

section \<open>Terminal boards and termination\<close>

text \<open>
  C4. At a terminal input \<open>minimax\<close> returns a result without a move index and with
  the score of the base case: \<open>10 - depth\<close> when the winner is the maximizing player,
  \<open>depth - 10\<close> when it is the minimizing player (the two marks being distinct), and
  \<open>0\<close> when there is no winner and no legal move. The last case is a result like the
  others, not a failure. The depth is any integer of magnitude at most \<open>2 ^ 53 - 10\<close>:
  on these the subtractions of the source are exact.
\<close>

theorem minimax_terminal:
  assumes "\<bar>d\<bar> \<le> 2 ^ 53 - 10"
  shows "(calculateWinner b = Some ai \<longrightarrow> minimax b p ai hu d = \<lparr>index = None, score = 10 - d\<rparr>)
   \<and> (ai \<noteq> hu \<and> calculateWinner b = Some hu \<longrightarrow>
        minimax b p ai hu d = \<lparr>index = None, score = d - 10\<rparr>)
   \<and> (calculateWinner b = None \<and> getAvailableMoves b = [] \<longrightarrow>
        minimax b p ai hu d = \<lparr>index = None, score = 0\<rparr>)"
  by (auto simp: minimax.simps Let_def)

theorem minimax_terminal_witness:
  "\<bar>6::int\<bar> \<le> 2 ^ 53 - 10 \<and> \<bar>5::int\<bar> \<le> 2 ^ 53 - 10 \<and> \<bar>9::int\<bar> \<le> 2 ^ 53 - 10
   \<and> calculateWinner [Some MarkO, Some MarkO, Some MarkO, Some MarkX, Some MarkX, None,
       Some MarkX, None, None] = Some MarkO
   \<and> minimax [Some MarkO, Some MarkO, Some MarkO, Some MarkX, Some MarkX, None,
       Some MarkX, None, None] MarkX MarkO MarkX 6 = \<lparr>index = None, score = 4\<rparr>
   \<and> calculateWinner [Some MarkX, Some MarkO, None, Some MarkX, Some MarkO, None,
       Some MarkX, None, None] = Some MarkX
   \<and> minimax [Some MarkX, Some MarkO, None, Some MarkX, Some MarkO, None,
       Some MarkX, None, None] MarkO MarkO MarkX 5 = \<lparr>index = None, score = - 5\<rparr>
   \<and> calculateWinner [Some MarkX, Some MarkO, Some MarkX, Some MarkX, Some MarkO, Some MarkO,
       Some MarkO, Some MarkX, Some MarkX] = None
   \<and> getAvailableMoves [Some MarkX, Some MarkO, Some MarkX, Some MarkX, Some MarkO, Some MarkO,
       Some MarkO, Some MarkX, Some MarkX] = []
   \<and> minimax [Some MarkX, Some MarkO, Some MarkX, Some MarkX, Some MarkO, Some MarkO,
       Some MarkO, Some MarkX, Some MarkX] MarkO MarkO MarkX 9 = \<lparr>index = None, score = 0\<rparr>"
proof -
  let ?won = "[Some MarkO, Some MarkO, Some MarkO, Some MarkX, Some MarkX, None,
       Some MarkX, None, None]"
  let ?lost = "[Some MarkX, Some MarkO, None, Some MarkX, Some MarkO, None,
       Some MarkX, None, None]"
  let ?full = "[Some MarkX, Some MarkO, Some MarkX, Some MarkX, Some MarkO, Some MarkO,
       Some MarkO, Some MarkX, Some MarkX]"
  have w: "calculateWinner ?won = Some MarkO" by code_simp
  have l: "calculateWinner ?lost = Some MarkX" by code_simp
  have f: "calculateWinner ?full = None" by code_simp
  have e: "getAvailableMoves ?full = []" by code_simp
  have d: "MarkO \<noteq> MarkX" by simp
  have b6: "\<bar>6::int\<bar> \<le> 2 ^ 53 - 10" by simp
  have b5: "\<bar>5::int\<bar> \<le> 2 ^ 53 - 10" by simp
  have b9: "\<bar>9::int\<bar> \<le> 2 ^ 53 - 10" by simp
  show ?thesis
    using w l f e d b6 b5 b9
      minimax_terminal [OF b6, of ?won MarkO MarkX MarkX]
      minimax_terminal [OF b5, of ?lost MarkO MarkO MarkX]
      minimax_terminal [OF b9, of ?full MarkO MarkO MarkX]
    by simp
qed

text \<open>
  C9. \<open>minimax\<close> terminates on every board, for every choice of the marks, of the
  player to move and of the depth: every argument tuple lies in the well-founded part
  of the relation between a call and the calls it makes, because each recursive call
  receives a board with strictly fewer empty cells.
\<close>

theorem minimax_terminates:
  "minimax_dom (b, p, ai, hu, d)
   \<and> (\<forall>idx \<in> set (getAvailableMoves b). count_empty (js_set b idx p) < count_empty b)"
proof -
  have "minimax_rel x y \<Longrightarrow> count_empty (fst x) < count_empty (fst y)" for x y
    by (erule minimax_rel.cases) (simp add: count_empty_decreases)
  then have "wfp minimax_rel"
    by (rule wfp_if_convertible_to_nat)
  then have "minimax_dom (b, p, ai, hu, d)"
    by (rule accp_wfpD)
  then show ?thesis by (simp add: count_empty_decreases)
qed

theorem minimax_terminates_witness:
  "minimax_dom (replicate 9 None, MarkX, MarkO, MarkX, 0)
   \<and> 4 \<in> set (getAvailableMoves (replicate 9 None))
   \<and> count_empty (js_set (replicate 9 None) 4 MarkX) < count_empty (replicate 9 None)"
proof -
  have m: "4 \<in> set (getAvailableMoves (replicate 9 None))" by code_simp
  show ?thesis using m minimax_terminates [of "replicate 9 None" MarkX MarkO MarkX 0] by blast
qed

section \<open>The selection loops\<close>

lemma maximize_Finite:
  "maximize (Finite s) bm ms = r \<Longrightarrow>
   (r = bm \<and> (\<forall>m \<in> set ms. score m \<le> s))
   \<or> (s < score r \<and> (\<exists>pre post. ms = pre @ r # post
         \<and> (\<forall>m \<in> set pre. score m < score r) \<and> (\<forall>m \<in> set post. score m \<le> score r)))"
proof (induction ms arbitrary: s bm)
  case Nil
  then show ?case by simp
next
  case (Cons m ms)
  show ?case
  proof (cases "s < score m")
    case True
    with Cons.prems have "maximize (Finite (score m)) m ms = r" by simp
    from Cons.IH [OF this] show ?thesis
    proof
      assume "r = m \<and> (\<forall>x \<in> set ms. score x \<le> score m)"
      then have "m # ms = [] @ r # ms \<and> (\<forall>x \<in> set []. score x < score r)
          \<and> (\<forall>x \<in> set ms. score x \<le> score r)" by simp
      with True \<open>r = m \<and> _\<close> show ?thesis by blast
    next
      assume a: "score m < score r \<and> (\<exists>pre post. ms = pre @ r # post
         \<and> (\<forall>x \<in> set pre. score x < score r) \<and> (\<forall>x \<in> set post. score x \<le> score r))"
      then obtain pre post where p: "ms = pre @ r # post"
        "\<forall>x \<in> set pre. score x < score r" "\<forall>x \<in> set post. score x \<le> score r" by blast
      then have "m # ms = (m # pre) @ r # post \<and> (\<forall>x \<in> set (m # pre). score x < score r)
          \<and> (\<forall>x \<in> set post. score x \<le> score r)" using a by simp
      moreover have "s < score r" using a True by simp
      ultimately show ?thesis by blast
    qed
  next
    case False
    with Cons.prems have "maximize (Finite s) bm ms = r" by simp
    from Cons.IH [OF this] show ?thesis
    proof
      assume "r = bm \<and> (\<forall>x \<in> set ms. score x \<le> s)"
      with False show ?thesis by simp
    next
      assume a: "s < score r \<and> (\<exists>pre post. ms = pre @ r # post
         \<and> (\<forall>x \<in> set pre. score x < score r) \<and> (\<forall>x \<in> set post. score x \<le> score r))"
      then obtain pre post where p: "ms = pre @ r # post"
        "\<forall>x \<in> set pre. score x < score r" "\<forall>x \<in> set post. score x \<le> score r" by blast
      then have "m # ms = (m # pre) @ r # post \<and> (\<forall>x \<in> set (m # pre). score x < score r)
          \<and> (\<forall>x \<in> set post. score x \<le> score r)" using a False by simp
      with a show ?thesis by blast
    qed
  qed
qed

lemma maximize_first:
  assumes "ms \<noteq> []"
  shows "\<exists>pre post. ms = pre @ maximize NegInfinity bm ms # post
         \<and> (\<forall>m \<in> set pre. score m < score (maximize NegInfinity bm ms))
         \<and> (\<forall>m \<in> set post. score m \<le> score (maximize NegInfinity bm ms))"
proof -
  obtain m ms' where ms: "ms = m # ms'" using assms by (cases ms) auto
  define r where "r = maximize NegInfinity bm ms"
  then have "maximize (Finite (score m)) m ms' = r" by (simp add: ms)
  from maximize_Finite [OF this] have "\<exists>pre post. ms = pre @ r # post
         \<and> (\<forall>m \<in> set pre. score m < score r) \<and> (\<forall>m \<in> set post. score m \<le> score r)"
  proof
    assume "r = m \<and> (\<forall>x \<in> set ms'. score x \<le> score m)"
    then have "ms = [] @ r # ms' \<and> (\<forall>x \<in> set []. score x < score r)
        \<and> (\<forall>x \<in> set ms'. score x \<le> score r)" by (simp add: ms)
    then show ?thesis by blast
  next
    assume a: "score m < score r \<and> (\<exists>pre post. ms' = pre @ r # post
         \<and> (\<forall>x \<in> set pre. score x < score r) \<and> (\<forall>x \<in> set post. score x \<le> score r))"
    then obtain pre post where p: "ms' = pre @ r # post"
        "\<forall>x \<in> set pre. score x < score r" "\<forall>x \<in> set post. score x \<le> score r" by blast
    then have "ms = (m # pre) @ r # post \<and> (\<forall>x \<in> set (m # pre). score x < score r)
          \<and> (\<forall>x \<in> set post. score x \<le> score r)" using a by (simp add: ms)
    then show ?thesis by blast
  qed
  then show ?thesis by (simp add: r_def)
qed

lemma minimize_Finite:
  "minimize (Finite s) bm ms = r \<Longrightarrow>
   (r = bm \<and> (\<forall>m \<in> set ms. s \<le> score m))
   \<or> (score r < s \<and> (\<exists>pre post. ms = pre @ r # post
         \<and> (\<forall>m \<in> set pre. score r < score m) \<and> (\<forall>m \<in> set post. score r \<le> score m)))"
proof (induction ms arbitrary: s bm)
  case Nil
  then show ?case by simp
next
  case (Cons m ms)
  show ?case
  proof (cases "score m < s")
    case True
    with Cons.prems have "minimize (Finite (score m)) m ms = r" by simp
    from Cons.IH [OF this] show ?thesis
    proof
      assume "r = m \<and> (\<forall>x \<in> set ms. score m \<le> score x)"
      then have "m # ms = [] @ r # ms \<and> (\<forall>x \<in> set []. score r < score x)
          \<and> (\<forall>x \<in> set ms. score r \<le> score x)" by simp
      with True \<open>r = m \<and> _\<close> show ?thesis by blast
    next
      assume a: "score r < score m \<and> (\<exists>pre post. ms = pre @ r # post
         \<and> (\<forall>x \<in> set pre. score r < score x) \<and> (\<forall>x \<in> set post. score r \<le> score x))"
      then obtain pre post where p: "ms = pre @ r # post"
        "\<forall>x \<in> set pre. score r < score x" "\<forall>x \<in> set post. score r \<le> score x" by blast
      then have "m # ms = (m # pre) @ r # post \<and> (\<forall>x \<in> set (m # pre). score r < score x)
          \<and> (\<forall>x \<in> set post. score r \<le> score x)" using a by simp
      moreover have "score r < s" using a True by simp
      ultimately show ?thesis by blast
    qed
  next
    case False
    with Cons.prems have "minimize (Finite s) bm ms = r" by simp
    from Cons.IH [OF this] show ?thesis
    proof
      assume "r = bm \<and> (\<forall>x \<in> set ms. s \<le> score x)"
      with False show ?thesis by simp
    next
      assume a: "score r < s \<and> (\<exists>pre post. ms = pre @ r # post
         \<and> (\<forall>x \<in> set pre. score r < score x) \<and> (\<forall>x \<in> set post. score r \<le> score x))"
      then obtain pre post where p: "ms = pre @ r # post"
        "\<forall>x \<in> set pre. score r < score x" "\<forall>x \<in> set post. score r \<le> score x" by blast
      then have "m # ms = (m # pre) @ r # post \<and> (\<forall>x \<in> set (m # pre). score r < score x)
          \<and> (\<forall>x \<in> set post. score r \<le> score x)" using a False by simp
      with a show ?thesis by blast
    qed
  qed
qed

lemma minimize_first:
  assumes "ms \<noteq> []"
  shows "\<exists>pre post. ms = pre @ minimize PosInfinity bm ms # post
         \<and> (\<forall>m \<in> set pre. score (minimize PosInfinity bm ms) < score m)
         \<and> (\<forall>m \<in> set post. score (minimize PosInfinity bm ms) \<le> score m)"
proof -
  obtain m ms' where ms: "ms = m # ms'" using assms by (cases ms) auto
  define r where "r = minimize PosInfinity bm ms"
  then have "minimize (Finite (score m)) m ms' = r" by (simp add: ms)
  from minimize_Finite [OF this] have "\<exists>pre post. ms = pre @ r # post
         \<and> (\<forall>m \<in> set pre. score r < score m) \<and> (\<forall>m \<in> set post. score r \<le> score m)"
  proof
    assume "r = m \<and> (\<forall>x \<in> set ms'. score m \<le> score x)"
    then have "ms = [] @ r # ms' \<and> (\<forall>x \<in> set []. score r < score x)
        \<and> (\<forall>x \<in> set ms'. score r \<le> score x)" by (simp add: ms)
    then show ?thesis by blast
  next
    assume a: "score r < score m \<and> (\<exists>pre post. ms' = pre @ r # post
         \<and> (\<forall>x \<in> set pre. score r < score x) \<and> (\<forall>x \<in> set post. score r \<le> score x))"
    then obtain pre post where p: "ms' = pre @ r # post"
        "\<forall>x \<in> set pre. score r < score x" "\<forall>x \<in> set post. score r \<le> score x" by blast
    then have "ms = (m # pre) @ r # post \<and> (\<forall>x \<in> set (m # pre). score r < score x)
          \<and> (\<forall>x \<in> set post. score r \<le> score x)" using a by (simp add: ms)
    then show ?thesis by blast
  qed
  then show ?thesis by (simp add: r_def)
qed


lemma map_eq_split:
  assumes "map f xs = pre @ r # post"
  shows "\<exists>a1 i a2. xs = a1 @ i # a2 \<and> pre = map f a1 \<and> r = f i \<and> post = map f a2"
proof -
  from assms obtain a1 rest where a: "xs = a1 @ rest" "map f a1 = pre" "map f rest = r # post"
    by (auto simp: map_eq_append_conv)
  from a(3) obtain i a2 where "rest = i # a2" "f i = r" "map f a2 = post"
    by (auto simp: map_eq_Cons_conv)
  with a show ?thesis by auto
qed

lemma minimax_unfold:
  assumes "calculateWinner b \<noteq> Some ai" "calculateWinner b \<noteq> Some hu"
    "getAvailableMoves b \<noteq> []"
  shows "minimax b p ai hu d =
     (let moves = map (\<lambda>idx. \<lparr>index = Some idx, score = child_score b p ai hu d idx\<rparr>)
                    (getAvailableMoves b)
      in if p = ai then maximize NegInfinity (moves ! 0) moves
         else minimize PosInfinity (moves ! 0) moves)"
  using assms by (subst minimax.simps) (simp add: Let_def child_score_def)

lemma minimax_choice_max:
  assumes "calculateWinner b \<noteq> Some ai" "calculateWinner b \<noteq> Some hu"
    "getAvailableMoves b \<noteq> []"
  shows "\<exists>a1 i a2. getAvailableMoves b = a1 @ i # a2
     \<and> minimax b ai ai hu d = \<lparr>index = Some i, score = child_score b ai ai hu d i\<rparr>
     \<and> (\<forall>j \<in> set a1. child_score b ai ai hu d j < child_score b ai ai hu d i)
     \<and> (\<forall>j \<in> set a2. child_score b ai ai hu d j \<le> child_score b ai ai hu d i)"
proof -
  define f where "f = (\<lambda>idx. \<lparr>index = Some idx, score = child_score b ai ai hu d idx\<rparr>)"
  define moves where "moves = map f (getAvailableMoves b)"
  define r where "r = maximize NegInfinity (moves ! 0) moves"
  have r: "minimax b ai ai hu d = r"
    using minimax_unfold [OF assms, of ai d] by (simp add: r_def moves_def f_def Let_def)
  have "moves \<noteq> []" using assms(3) by (simp add: moves_def)
  from maximize_first [OF this, of "moves ! 0"] obtain pre post where
    p: "moves = pre @ r # post" "\<forall>m \<in> set pre. score m < score r"
       "\<forall>m \<in> set post. score m \<le> score r"
    unfolding r_def by blast
  from map_eq_split [OF p(1) [unfolded moves_def]] obtain a1 i a2 where
    a: "getAvailableMoves b = a1 @ i # a2" "pre = map f a1" "r = f i" "post = map f a2"
    by blast
  have "\<forall>j \<in> set a1. child_score b ai ai hu d j < child_score b ai ai hu d i"
    using p(2) a by (simp add: f_def)
  moreover have "\<forall>j \<in> set a2. child_score b ai ai hu d j \<le> child_score b ai ai hu d i"
    using p(3) a by (simp add: f_def)
  ultimately show ?thesis using a r by (auto simp: f_def)
qed

lemma minimax_choice_min:
  assumes "calculateWinner b \<noteq> Some ai" "calculateWinner b \<noteq> Some hu"
    "getAvailableMoves b \<noteq> []" "p \<noteq> ai"
  shows "\<exists>a1 i a2. getAvailableMoves b = a1 @ i # a2
     \<and> minimax b p ai hu d = \<lparr>index = Some i, score = child_score b p ai hu d i\<rparr>
     \<and> (\<forall>j \<in> set a1. child_score b p ai hu d i < child_score b p ai hu d j)
     \<and> (\<forall>j \<in> set a2. child_score b p ai hu d i \<le> child_score b p ai hu d j)"
proof -
  define f where "f = (\<lambda>idx. \<lparr>index = Some idx, score = child_score b p ai hu d idx\<rparr>)"
  define moves where "moves = map f (getAvailableMoves b)"
  define r where "r = minimize PosInfinity (moves ! 0) moves"
  have r: "minimax b p ai hu d = r"
    using minimax_unfold [OF assms(1-3), of p d] assms(4)
    by (simp add: r_def moves_def f_def Let_def)
  have "moves \<noteq> []" using assms(3) by (simp add: moves_def)
  from minimize_first [OF this, of "moves ! 0"] obtain pre post where
    p: "moves = pre @ r # post" "\<forall>m \<in> set pre. score r < score m"
       "\<forall>m \<in> set post. score r \<le> score m"
    unfolding r_def by blast
  from map_eq_split [OF p(1) [unfolded moves_def]] obtain a1 i a2 where
    a: "getAvailableMoves b = a1 @ i # a2" "pre = map f a1" "r = f i" "post = map f a2"
    by blast
  have "\<forall>j \<in> set a1. child_score b p ai hu d i < child_score b p ai hu d j"
    using p(2) a by (simp add: f_def)
  moreover have "\<forall>j \<in> set a2. child_score b p ai hu d i \<le> child_score b p ai hu d j"
    using p(3) a by (simp add: f_def)
  ultimately show ?thesis using a r by (auto simp: f_def)
qed

lemma sorted_split_before:
  assumes "sorted_wrt (<) (a1 @ (i::nat) # a2)" "j \<in> set (a1 @ i # a2)" "j < i"
  shows "j \<in> set a1"
  using assms by (auto simp: sorted_wrt_append)


section \<open>Selection and move choice\<close>

text \<open>
  C5. On a board without winner and with a legal move, \<open>minimax\<close> returns the pair
  of a legal move and of the score of the recursive call for it. When the player to
  move is the maximizing player no move has a greater score and every move of smaller
  index has a strictly smaller one; otherwise no move has a smaller score and every
  move of smaller index has a strictly greater one.
\<close>

theorem minimax_selects_extreme:
  assumes "calculateWinner b = None" "getAvailableMoves b \<noteq> []"
  shows "\<exists>i \<in> set (getAvailableMoves b).
     minimax b p ai hu d = \<lparr>index = Some i, score = child_score b p ai hu d i\<rparr>
     \<and> (p = ai \<longrightarrow>
          (\<forall>j \<in> set (getAvailableMoves b). child_score b p ai hu d j \<le> child_score b p ai hu d i)
          \<and> (\<forall>j \<in> set (getAvailableMoves b).
                j < i \<longrightarrow> child_score b p ai hu d j < child_score b p ai hu d i))
     \<and> (p \<noteq> ai \<longrightarrow>
          (\<forall>j \<in> set (getAvailableMoves b). child_score b p ai hu d i \<le> child_score b p ai hu d j)
          \<and> (\<forall>j \<in> set (getAvailableMoves b).
                j < i \<longrightarrow> child_score b p ai hu d i < child_score b p ai hu d j))"
proof (cases "p = ai")
  case True
  have nw: "calculateWinner b \<noteq> Some ai" "calculateWinner b \<noteq> Some hu"
    using assms(1) by simp_all
  from minimax_choice_max [OF nw assms(2), of d] obtain a1 i a2 where
    a: "getAvailableMoves b = a1 @ i # a2"
       "minimax b ai ai hu d = \<lparr>index = Some i, score = child_score b ai ai hu d i\<rparr>"
       "\<forall>j \<in> set a1. child_score b ai ai hu d j < child_score b ai ai hu d i"
       "\<forall>j \<in> set a2. child_score b ai ai hu d j \<le> child_score b ai ai hu d i"
    by blast
  have s: "sorted_wrt (<) (a1 @ i # a2)"
    using getAvailableMoves_sorted [of b] a(1) by simp
  have "\<forall>j \<in> set (getAvailableMoves b). child_score b ai ai hu d j \<le> child_score b ai ai hu d i"
    using a by auto
  moreover have "\<forall>j \<in> set (getAvailableMoves b).
      j < i \<longrightarrow> child_score b ai ai hu d j < child_score b ai ai hu d i"
    using a(1,3) sorted_split_before [OF s] by auto
  moreover have "i \<in> set (getAvailableMoves b)" using a(1) by simp
  ultimately show ?thesis using True a(2) by blast
next
  case False
  have nw: "calculateWinner b \<noteq> Some ai" "calculateWinner b \<noteq> Some hu"
    using assms(1) by simp_all
  from minimax_choice_min [OF nw assms(2) False, of d] obtain a1 i a2 where
    a: "getAvailableMoves b = a1 @ i # a2"
       "minimax b p ai hu d = \<lparr>index = Some i, score = child_score b p ai hu d i\<rparr>"
       "\<forall>j \<in> set a1. child_score b p ai hu d i < child_score b p ai hu d j"
       "\<forall>j \<in> set a2. child_score b p ai hu d i \<le> child_score b p ai hu d j"
    by blast
  have s: "sorted_wrt (<) (a1 @ i # a2)"
    using getAvailableMoves_sorted [of b] a(1) by simp
  have "\<forall>j \<in> set (getAvailableMoves b). child_score b p ai hu d i \<le> child_score b p ai hu d j"
    using a by auto
  moreover have "\<forall>j \<in> set (getAvailableMoves b).
      j < i \<longrightarrow> child_score b p ai hu d i < child_score b p ai hu d j"
    using a(1,3) sorted_split_before [OF s] by auto
  moreover have "i \<in> set (getAvailableMoves b)" using a(1) by simp
  ultimately show ?thesis using False a(2) by blast
qed

lemma minimax_index_legal:
  assumes "index (minimax b p ai hu d) = Some i"
  shows "i \<in> set (getAvailableMoves b)"
proof -
  have t: "calculateWinner b \<noteq> Some ai \<and> calculateWinner b \<noteq> Some hu
      \<and> getAvailableMoves b \<noteq> []"
    using assms by (subst (asm) minimax.simps) (auto simp: Let_def split: if_splits)
  show ?thesis
  proof (cases "p = ai")
    case True
    from minimax_choice_max [of b ai hu d] t obtain a1 k a2 where
      "getAvailableMoves b = a1 @ k # a2"
      "minimax b ai ai hu d = \<lparr>index = Some k, score = child_score b ai ai hu d k\<rparr>"
      by blast
    with assms True show ?thesis by simp
  next
    case False
    from minimax_choice_min [of b ai hu p d] t False obtain a1 k a2 where
      "getAvailableMoves b = a1 @ k # a2"
      "minimax b p ai hu d = \<lparr>index = Some k, score = child_score b p ai hu d k\<rparr>"
      by blast
    with assms show ?thesis by simp
  qed
qed

text \<open>
  C6. A move index returned by \<open>chooseMove\<close> is the index of an empty cell of the
  input board, never that of an occupied cell.
\<close>

theorem chooseMove_empty_cell:
  "chooseMove b ai hu = Some i \<Longrightarrow> i < length b \<and> cell_at b i = None"
  using minimax_index_legal [of b ai ai hu 0 i]
  by (simp add: chooseMove_def getAvailableMoves_set cell_at_def)

section \<open>Evaluation on boards of nine cells\<close>

text \<open>
  Equations that evaluate the functions on a board written out cell by cell, so that
  a concrete position is computed by rewriting.
\<close>

lemma upt_9: "[0 ..< 9] = [0, 1, 2, 3, 4, 5, 6, 7, 8::nat]"
  by (simp add: upt_rec)

lemma cell_at_9:
  "cell_at [c0, c1, c2, c3, c4, c5, c6, c7, c8] 0 = c0"
  "cell_at [c0, c1, c2, c3, c4, c5, c6, c7, c8] 1 = c1"
  "cell_at [c0, c1, c2, c3, c4, c5, c6, c7, c8] (Suc 0) = c1"
  "cell_at [c0, c1, c2, c3, c4, c5, c6, c7, c8] 2 = c2"
  "cell_at [c0, c1, c2, c3, c4, c5, c6, c7, c8] 3 = c3"
  "cell_at [c0, c1, c2, c3, c4, c5, c6, c7, c8] 4 = c4"
  "cell_at [c0, c1, c2, c3, c4, c5, c6, c7, c8] 5 = c5"
  "cell_at [c0, c1, c2, c3, c4, c5, c6, c7, c8] 6 = c6"
  "cell_at [c0, c1, c2, c3, c4, c5, c6, c7, c8] 7 = c7"
  "cell_at [c0, c1, c2, c3, c4, c5, c6, c7, c8] 8 = c8"
  by (simp_all add: cell_at_def)

lemma calculateWinner_9:
  "calculateWinner [c0, c1, c2, c3, c4, c5, c6, c7, c8] =
     (if c0 \<noteq> None \<and> c0 = c1 \<and> c1 = c2 then c0
      else if c3 \<noteq> None \<and> c3 = c4 \<and> c4 = c5 then c3
      else if c6 \<noteq> None \<and> c6 = c7 \<and> c7 = c8 then c6
      else if c0 \<noteq> None \<and> c0 = c3 \<and> c3 = c6 then c0
      else if c1 \<noteq> None \<and> c1 = c4 \<and> c4 = c7 then c1
      else if c2 \<noteq> None \<and> c2 = c5 \<and> c5 = c8 then c2
      else if c0 \<noteq> None \<and> c0 = c4 \<and> c4 = c8 then c0
      else if c2 \<noteq> None \<and> c2 = c4 \<and> c4 = c6 then c2
      else None)"
  unfolding calculateWinner_def lines_def
  by (simp only: winner_loop.simps line_complete_def cell_at_9 prod.case fst_conv)

lemma getAvailableMoves_9:
  "getAvailableMoves [c0, c1, c2, c3, c4, c5, c6, c7, c8] =
     (if c0 = None then [0] else []) @ (if c1 = None then [1] else [])
     @ (if c2 = None then [2] else []) @ (if c3 = None then [3] else [])
     @ (if c4 = None then [4] else []) @ (if c5 = None then [5] else [])
     @ (if c6 = None then [6] else []) @ (if c7 = None then [7] else [])
     @ (if c8 = None then [8] else [])"
proof -
  have l: "length [c0, c1, c2, c3, c4, c5, c6, c7, c8] = 9" by simp
  have u: "[0 ..< 9] = [0] @ [1] @ [2] @ [3] @ [4] @ [5] @ [6] @ [7] @ [8::nat]"
    by (simp add: upt_rec)
  show ?thesis
    unfolding getAvailableMoves_def l u
    by (simp only: filter_append filter.simps cell_at_9)
qed

lemma js_set_9:
  "js_set [c0, c1, c2, c3, c4, c5, c6, c7, c8] 0 v = [Some v, c1, c2, c3, c4, c5, c6, c7, c8]"
  "js_set [c0, c1, c2, c3, c4, c5, c6, c7, c8] 1 v = [c0, Some v, c2, c3, c4, c5, c6, c7, c8]"
  "js_set [c0, c1, c2, c3, c4, c5, c6, c7, c8] (Suc 0) v = [c0, Some v, c2, c3, c4, c5, c6, c7, c8]"
  "js_set [c0, c1, c2, c3, c4, c5, c6, c7, c8] 2 v = [c0, c1, Some v, c3, c4, c5, c6, c7, c8]"
  "js_set [c0, c1, c2, c3, c4, c5, c6, c7, c8] 3 v = [c0, c1, c2, Some v, c4, c5, c6, c7, c8]"
  "js_set [c0, c1, c2, c3, c4, c5, c6, c7, c8] 4 v = [c0, c1, c2, c3, Some v, c5, c6, c7, c8]"
  "js_set [c0, c1, c2, c3, c4, c5, c6, c7, c8] 5 v = [c0, c1, c2, c3, c4, Some v, c6, c7, c8]"
  "js_set [c0, c1, c2, c3, c4, c5, c6, c7, c8] 6 v = [c0, c1, c2, c3, c4, c5, Some v, c7, c8]"
  "js_set [c0, c1, c2, c3, c4, c5, c6, c7, c8] 7 v = [c0, c1, c2, c3, c4, c5, c6, Some v, c8]"
  "js_set [c0, c1, c2, c3, c4, c5, c6, c7, c8] 8 v = [c0, c1, c2, c3, c4, c5, c6, c7, Some v]"
  by (simp_all add: js_set_def)

lemma minimax_won:
  "calculateWinner b = Some ai \<Longrightarrow> minimax b p ai hu d = \<lparr>index = None, score = 10 - d\<rparr>"
  by (simp add: minimax.simps)

lemma minimax_lost:
  "calculateWinner b = Some hu \<Longrightarrow> ai \<noteq> hu \<Longrightarrow>
   minimax b p ai hu d = \<lparr>index = None, score = d - 10\<rparr>"
  by (simp add: minimax.simps)

lemma minimax_open:
  "calculateWinner b = None \<Longrightarrow>
   minimax b p ai hu d =
     (case map (\<lambda>idx. \<lparr>index = Some idx,
                   score = score (minimax (js_set b idx p) (if p = ai then hu else ai)
                                    ai hu (d + 1))\<rparr>)
             (getAvailableMoves b) of
        [] \<Rightarrow> \<lparr>index = None, score = 0\<rparr>
      | m # ms \<Rightarrow>
          if p = ai then maximize (Finite (score m)) m ms
          else minimize (Finite (score m)) m ms)"
  by (subst minimax.simps) (auto simp: Let_def split: list.splits)

lemmas minimax_eval =
  calculateWinner_9 getAvailableMoves_9 js_set_9 minimax_won minimax_lost minimax_open

lemma scenario_minimax:
  "minimax [Some MarkX, Some MarkX, None, None, Some MarkO, None, None, None, None]
     MarkO MarkO MarkX 0 = \<lparr>index = Some 2, score = 0\<rparr>"
  by (simp add: minimax_eval)

text \<open>
  C8. On the board with X at 0 and 1 and O at 4, the computer playing O: there is no
  winner, the legal moves are 2, 3, 5, 6, 7, 8, and the chosen move is 2.
\<close>

theorem blocking_scenario:
  "calculateWinner [Some MarkX, Some MarkX, None, None, Some MarkO, None, None, None, None]
     = None
   \<and> getAvailableMoves [Some MarkX, Some MarkX, None, None, Some MarkO, None, None, None, None]
     = [2, 3, 5, 6, 7, 8]
   \<and> chooseMove [Some MarkX, Some MarkX, None, None, Some MarkO, None, None, None, None]
       MarkO MarkX = Some 2"
proof -
  let ?b = "[Some MarkX, Some MarkX, None, None, Some MarkO, None, None, None, None]"
  have w: "calculateWinner ?b = None" by (simp add: calculateWinner_9)
  have m: "getAvailableMoves ?b = [2, 3, 5, 6, 7, 8]" by (simp add: getAvailableMoves_9)
  have c: "chooseMove ?b MarkO MarkX = Some 2" by (simp add: chooseMove_def scenario_minimax)
  show ?thesis using w m c by simp
qed

theorem minimax_selects_extreme_witness:
  "calculateWinner [Some MarkX, Some MarkX, None, None, Some MarkO, None, None, None, None]
     = None
   \<and> getAvailableMoves [Some MarkX, Some MarkX, None, None, Some MarkO, None, None, None, None]
     \<noteq> []
   \<and> minimax [Some MarkX, Some MarkX, None, None, Some MarkO, None, None, None, None]
       MarkO MarkO MarkX 0
     = \<lparr>index = Some 2,
        score = child_score [Some MarkX, Some MarkX, None, None, Some MarkO, None, None, None, None]
                  MarkO MarkO MarkX 0 2\<rparr>
   \<and> 3 \<in> set (getAvailableMoves
          [Some MarkX, Some MarkX, None, None, Some MarkO, None, None, None, None])
   \<and> child_score [Some MarkX, Some MarkX, None, None, Some MarkO, None, None, None, None]
          MarkO MarkO MarkX 0 3
        \<le> child_score [Some MarkX, Some MarkX, None, None, Some MarkO, None, None, None, None]
          MarkO MarkO MarkX 0 2"
proof -
  let ?b = "[Some MarkX, Some MarkX, None, None, Some MarkO, None, None, None, None]"
  have w: "calculateWinner ?b = None" by (simp add: calculateWinner_9)
  have m: "getAvailableMoves ?b \<noteq> []" by (simp add: getAvailableMoves_9)
  from minimax_selects_extreme [OF w m, of MarkO MarkO MarkX 0] obtain i where
    i: "minimax ?b MarkO MarkO MarkX 0
          = \<lparr>index = Some i, score = child_score ?b MarkO MarkO MarkX 0 i\<rparr>"
       "\<forall>j \<in> set (getAvailableMoves ?b).
          child_score ?b MarkO MarkO MarkX 0 j \<le> child_score ?b MarkO MarkO MarkX 0 i"
    by auto
  from i(1) have "i = 2" by (simp add: scenario_minimax)
  moreover have "3 \<in> set (getAvailableMoves ?b)" by (simp add: getAvailableMoves_9)
  ultimately show ?thesis using i w m by blast
qed

theorem chooseMove_empty_cell_witness:
  "chooseMove [Some MarkX, Some MarkX, None, None, Some MarkO, None, None, None, None]
     MarkO MarkX = Some 2
   \<and> 2 < length [Some MarkX, Some MarkX, None, None, Some MarkO, None, None, None, None]
   \<and> cell_at [Some MarkX, Some MarkX, None, None, Some MarkO, None, None, None, None] 2 = None"
proof -
  let ?b = "[Some MarkX, Some MarkX, None, None, Some MarkO, None, None, None, None]"
  have c: "chooseMove ?b MarkO MarkX = Some 2" by (simp add: chooseMove_def scenario_minimax)
  from chooseMove_empty_cell [OF c] c show ?thesis by simp
qed

section \<open>The winner\<close>

lemma line_complete_holds: "line_complete b l \<longleftrightarrow> (\<exists>m. line_holds b l m)"
proof (cases l)
  case (fields i j k)
  then show ?thesis
    by (cases "cell_at b i") (auto simp: line_complete_def line_holds_def)
qed

lemma line_holds_first: "line_holds b l m \<Longrightarrow> cell_at b (fst l) = Some m"
  by (cases l) (simp add: line_holds_def)

lemma winner_loop_Some:
  "winner_loop b ls = Some m \<Longrightarrow> \<exists>l \<in> set ls. line_holds b l m"
proof (induction ls)
  case Nil
  then show ?case by simp
next
  case (Cons l ls)
  show ?case
  proof (cases "line_complete b l")
    case True
    then obtain m' where m': "line_holds b l m'" by (auto simp: line_complete_holds)
    with True Cons.prems have "m' = m" by (simp add: line_holds_first)
    with m' show ?thesis by auto
  next
    case False
    with Cons show ?thesis by auto
  qed
qed

lemma winner_loop_None:
  "winner_loop b ls = None \<longleftrightarrow> (\<forall>l \<in> set ls. \<not> line_complete b l)"
proof (induction ls)
  case Nil
  then show ?case by simp
next
  case (Cons l ls)
  have "line_complete b l \<Longrightarrow> cell_at b (fst l) \<noteq> None"
    using line_holds_first [of b l] by (auto simp: line_complete_holds)
  with Cons show ?case by auto
qed

lemma winner_loop_first:
  assumes "ls = pre @ l # post" "\<forall>l' \<in> set pre. \<not> line_complete b l'" "line_holds b l m"
  shows "winner_loop b ls = Some m"
  using assms
proof (induction pre arbitrary: ls)
  case Nil
  then have "line_complete b l" by (auto simp: line_complete_holds)
  with Nil show ?case by (simp add: line_holds_first)
next
  case (Cons a pre)
  then show ?case by simp
qed

text \<open>
  C2 as stated fails on a board where both marks hold a line: the line checked
  first decides.
\<close>

theorem calculateWinner_both_lines:
  "length [Some MarkX, Some MarkX, Some MarkX, Some MarkO, Some MarkO, Some MarkO,
           None, None, None] = 9
   \<and> (3, 4, 5) \<in> set lines
   \<and> line_holds [Some MarkX, Some MarkX, Some MarkX, Some MarkO, Some MarkO, Some MarkO,
           None, None, None] (3, 4, 5) MarkO
   \<and> calculateWinner [Some MarkX, Some MarkX, Some MarkX, Some MarkO, Some MarkO, Some MarkO,
           None, None, None] \<noteq> Some MarkO"
  by (simp add: lines_def line_holds_def cell_at_9 calculateWinner_9)

text \<open>
  C2, amended. \<open>calculateWinner\<close> returns a mark only if some line is held by that
  mark, and returns none exactly when no line is held by a mark. The lines are checked
  in the fixed order rows, columns, diagonals, and the result is the mark of the first
  line held; so a mark that holds a line is returned whenever no line is held by the
  other mark.
\<close>

theorem calculateWinner_first_line:
  "(calculateWinner b = Some m \<longrightarrow> (\<exists>l \<in> set lines. line_holds b l m))
   \<and> (calculateWinner b = None \<longleftrightarrow> (\<forall>l \<in> set lines. \<forall>m'. \<not> line_holds b l m'))
   \<and> (\<forall>pre l post. lines = pre @ l # post \<and> line_holds b l m
          \<and> (\<forall>l' \<in> set pre. \<forall>m'. \<not> line_holds b l' m') \<longrightarrow> calculateWinner b = Some m)
   \<and> ((\<exists>l \<in> set lines. line_holds b l m)
        \<and> (\<forall>l \<in> set lines. \<forall>m'. line_holds b l m' \<longrightarrow> m' = m) \<longrightarrow> calculateWinner b = Some m)
   \<and> lines = [(0, 1, 2), (3, 4, 5), (6, 7, 8)] @ [(0, 3, 6), (1, 4, 7), (2, 5, 8)]
        @ [(0, 4, 8), (2, 4, 6)]"
proof -
  have a: "calculateWinner b = Some m \<longrightarrow> (\<exists>l \<in> set lines. line_holds b l m)"
    using winner_loop_Some [of b lines m] by (simp add: calculateWinner_def)
  have n: "calculateWinner b = None \<longleftrightarrow> (\<forall>l \<in> set lines. \<forall>m'. \<not> line_holds b l m')"
    using winner_loop_None [of b lines] by (simp add: calculateWinner_def line_complete_holds)
  have f: "\<forall>pre l post. lines = pre @ l # post \<and> line_holds b l m
          \<and> (\<forall>l' \<in> set pre. \<forall>m'. \<not> line_holds b l' m') \<longrightarrow> calculateWinner b = Some m"
    using winner_loop_first [of lines _ _ _ b m]
    by (auto simp: calculateWinner_def line_complete_holds)
  have s: "(\<exists>l \<in> set lines. line_holds b l m)
        \<and> (\<forall>l \<in> set lines. \<forall>m'. line_holds b l m' \<longrightarrow> m' = m) \<longrightarrow> calculateWinner b = Some m"
  proof (intro impI, elim conjE)
    assume e: "\<exists>l \<in> set lines. line_holds b l m"
      and u: "\<forall>l \<in> set lines. \<forall>m'. line_holds b l m' \<longrightarrow> m' = m"
    from e n have "calculateWinner b \<noteq> None" by blast
    then obtain w where w: "calculateWinner b = Some w" by auto
    with winner_loop_Some [of b lines w] obtain l where "l \<in> set lines" "line_holds b l w"
      by (auto simp: calculateWinner_def)
    with u have "w = m" by blast
    with w show "calculateWinner b = Some m" by simp
  qed
  have o: "lines = [(0, 1, 2), (3, 4, 5), (6, 7, 8)] @ [(0, 3, 6), (1, 4, 7), (2, 5, 8)]
        @ [(0, 4, 8), (2, 4, 6)]"
    by (simp add: lines_def)
  show ?thesis using a n f s o by blast
qed

theorem calculateWinner_first_line_witness:
  "lines = [] @ (0, 1, 2) # tl lines
   \<and> line_holds [Some MarkX, Some MarkX, Some MarkX, Some MarkO, Some MarkO, Some MarkO,
           None, None, None] (0, 1, 2) MarkX
   \<and> calculateWinner [Some MarkX, Some MarkX, Some MarkX, Some MarkO, Some MarkO, Some MarkO,
           None, None, None] = Some MarkX
   \<and> (\<exists>l \<in> set lines. line_holds [Some MarkX, Some MarkX, Some MarkX, Some MarkO, Some MarkO,
           Some MarkO, None, None, None] l MarkX)"
proof -
  let ?b = "[Some MarkX, Some MarkX, Some MarkX, Some MarkO, Some MarkO, Some MarkO,
           None, None, None]"
  have l: "lines = [] @ (0, 1, 2) # tl lines" by (simp add: lines_def)
  have h: "line_holds ?b (0, 1, 2) MarkX" by (simp add: line_holds_def cell_at_9)
  have e: "\<forall>l' \<in> set []. \<forall>m'. \<not> line_holds ?b l' m'" by simp
  from calculateWinner_first_line [of ?b MarkX] l h e
  have w: "calculateWinner ?b = Some MarkX" by blast
  with calculateWinner_first_line [of ?b MarkX]
  have "\<exists>l \<in> set lines. line_holds ?b l MarkX" by blast
  with l h w show ?thesis by blast
qed

section \<open>The controller keeps occupied cells\<close>

lemma cell_at_js_set_other:
  "cell_at b i = None \<Longrightarrow> cell_at b j = Some m \<Longrightarrow> cell_at (js_set b i v) j = Some m"
  by (cases "i = j") (auto simp: cell_at_def js_set_def nth_append split: if_splits)

lemma handleSquareClick_keeps:
  "cell_at (squares s) j = Some m \<Longrightarrow> cell_at (squares (handleSquareClick s i)) j = Some m"
  by (simp add: handleSquareClick_def cell_at_js_set_other)

lemma aiMoveEffect_keeps:
  "cell_at (squares s) j = Some m \<Longrightarrow> cell_at (squares (aiMoveEffect s)) j = Some m"
  by (simp add: aiMoveEffect_def Let_def cell_at_js_set_other split: option.splits)

lemma statusEffect_squares: "squares (statusEffect s) = squares s"
  by (simp add: statusEffect_def split: option.splits mark.splits)

text \<open>
  C10. An operation of the controller other than a new round, a reset or a change of
  mode (which starts a new round) keeps every mark on the board. The click handler
  leaves the board as it is when the game is over, when the clicked cell is occupied, or
  when it is the turn of the AI in AI mode; and when the AI effect changes the board,
  it writes the move chosen by \<open>minimax\<close> into a cell that was empty.
\<close>

theorem occupied_cells_kept:
  "(\<not> clears_board ev \<and> cell_at (squares s) j = Some m \<longrightarrow>
      cell_at (squares (step s ev)) j = Some m)
   \<and> (gameOver s \<or> cell_at (squares s) i \<noteq> None \<or> (mode s = AI \<and> \<not> xIsNext s) \<longrightarrow>
        squares (handleSquareClick s i) = squares s)
   \<and> (squares (aiMoveEffect s) \<noteq> squares s \<longrightarrow>
        (\<exists>k. chooseMove (squares s) aiPlayer humanPlayer = Some k
           \<and> cell_at (squares s) k = None
           \<and> squares (aiMoveEffect s) = js_set (squares s) k aiPlayer))"
proof -
  have a: "\<not> clears_board ev \<and> cell_at (squares s) j = Some m \<longrightarrow>
      cell_at (squares (step s ev)) j = Some m"
    by (cases ev)
       (simp_all add: handleSquareClick_keeps aiMoveEffect_keeps statusEffect_squares)
  have b: "gameOver s \<or> cell_at (squares s) i \<noteq> None \<or> (mode s = AI \<and> \<not> xIsNext s) \<longrightarrow>
        squares (handleSquareClick s i) = squares s"
    by (auto simp: handleSquareClick_def)
  have c: "squares (aiMoveEffect s) \<noteq> squares s \<longrightarrow>
        (\<exists>k. chooseMove (squares s) aiPlayer humanPlayer = Some k
           \<and> cell_at (squares s) k = None
           \<and> squares (aiMoveEffect s) = js_set (squares s) k aiPlayer)"
    by (auto simp: aiMoveEffect_def chooseMove_def Let_def split: option.splits if_splits)
  show ?thesis using a b c by blast
qed

theorem occupied_cells_kept_witness:
  "\<not> clears_board AiTimer
   \<and> cell_at (squares scenario_state) 0 = Some MarkX
   \<and> cell_at (squares (step scenario_state AiTimer)) 0 = Some MarkX
   \<and> cell_at (squares scenario_state) 4 \<noteq> None
   \<and> squares (handleSquareClick scenario_state 4) = squares scenario_state
   \<and> squares (aiMoveEffect scenario_state) \<noteq> squares scenario_state
   \<and> (\<exists>k. chooseMove (squares scenario_state) aiPlayer humanPlayer = Some k
          \<and> cell_at (squares scenario_state) k = None
          \<and> squares (aiMoveEffect scenario_state) = js_set (squares scenario_state) k aiPlayer)"
proof -
  have n: "\<not> clears_board AiTimer" by simp
  have x: "cell_at (squares scenario_state) 0 = Some MarkX"
    by (simp add: scenario_state_def cell_at_9)
  have o: "cell_at (squares scenario_state) 4 \<noteq> None"
    by (simp add: scenario_state_def cell_at_9)
  have a: "squares (aiMoveEffect scenario_state) \<noteq> squares scenario_state"
    by (simp add: aiMoveEffect_def scenario_state_def aiPlayer_def humanPlayer_def
          scenario_minimax cell_at_9 js_set_9)
  show ?thesis
    using n x o a occupied_cells_kept [of AiTimer scenario_state 0 MarkX 4] by blast
qed

section \<open>Scores and the distance to a loss\<close>

lemma latest_None: "latest ds = None \<longleftrightarrow> None \<in> set ds"
  by (induction ds rule: latest.induct) (auto split: option.splits)

lemma latest_Some:
  "latest ds = Some k \<Longrightarrow> ds \<noteq> [] \<Longrightarrow> Some k \<in> set ds \<and> (\<forall>j. Some j \<in> set ds \<longrightarrow> j \<le> k)"
proof (induction ds arbitrary: k rule: latest.induct)
  case 1
  then show ?case by simp
next
  case (2 ds)
  then show ?case by simp
next
  case (3 a ds)
  show ?case
  proof (cases "ds = []")
    case True
    with 3 show ?thesis by simp
  next
    case False
    from "3.prems" obtain m where m: "latest ds = Some m" "k = max a m"
      by (auto split: option.splits)
    from "3.IH" [OF m(1) False] m(2) show ?thesis by (auto simp: max_def)
  qed
qed

lemma earliest_None: "earliest ds = None \<longleftrightarrow> (\<forall>x \<in> set ds. x = None)"
  by (induction ds rule: earliest.induct) (auto split: option.splits)

lemma earliest_Some:
  "earliest ds = Some k \<Longrightarrow> Some k \<in> set ds \<and> (\<forall>j. Some j \<in> set ds \<longrightarrow> k \<le> j)"
proof (induction ds arbitrary: k rule: earliest.induct)
  case 1
  then show ?case by simp
next
  case (2 ds)
  then show ?case by simp
next
  case (3 a ds)
  show ?case
  proof (cases "earliest ds")
    case None
    with "3.prems" have "k = a" by simp
    moreover from None have "\<forall>x \<in> set ds. x = None" by (simp add: earliest_None)
    ultimately show ?thesis by auto
  next
    case (Some m)
    with "3.prems" have "k = min a m" by simp
    with "3.IH" [OF Some] show ?thesis by (auto simp: min_def)
  qed
qed

lemma loss_in_unfold:
  assumes "calculateWinner b \<noteq> Some ai" "calculateWinner b \<noteq> Some hu"
    "getAvailableMoves b \<noteq> []"
  shows "loss_in b p ai hu =
     map_option Suc (if p = ai then latest (map (child_loss b p ai hu) (getAvailableMoves b))
                     else earliest (map (child_loss b p ai hu) (getAvailableMoves b)))"
proof -
  have eq: "map (\<lambda>i. loss_in (js_set b i p) (if p = ai then hu else ai) ai hu) xs
      = map (child_loss b p ai hu) xs" for xs
    by (simp add: child_loss_def)
  have "loss_in b p ai hu =
      map_option Suc
        (if p = ai
         then latest (map (\<lambda>i. loss_in (js_set b i p) (if p = ai then hu else ai) ai hu)
                 (getAvailableMoves b))
         else earliest (map (\<lambda>i. loss_in (js_set b i p) (if p = ai then hu else ai) ai hu)
                 (getAvailableMoves b)))"
    using assms by (subst loss_in.simps) (simp add: Let_def)
  then show ?thesis by (simp only: eq)
qed

lemma loss_in_won: "calculateWinner b = Some ai \<Longrightarrow> loss_in b p ai hu = None"
  by (subst loss_in.simps) simp

lemma loss_in_lost:
  "calculateWinner b = Some hu \<Longrightarrow> ai \<noteq> hu \<Longrightarrow> loss_in b p ai hu = Some 0"
  by (subst loss_in.simps) simp

lemma loss_in_full:
  "calculateWinner b = None \<Longrightarrow> getAvailableMoves b = [] \<Longrightarrow> loss_in b p ai hu = None"
  by (subst loss_in.simps) simp

lemma score_fits_neg: "score_fits s d e (Some k) \<Longrightarrow> int e + d \<le> 9 \<Longrightarrow> s < 0"
  by (simp add: score_fits_def)

lemma score_loss:
  assumes "ai \<noteq> hu" "int (count_empty b) + d \<le> 9"
  shows "score_fits (score (minimax b p ai hu d)) d (count_empty b) (loss_in b p ai hu)"
  using assms(2)
proof (induction "count_empty b" arbitrary: b p d rule: less_induct)
  case less
  show ?case
  proof (cases "calculateWinner b = Some ai")
    case True
    with less.prems show ?thesis
      by (simp add: loss_in_won minimax.simps score_fits_def)
  next
    case nai: False
    show ?thesis
    proof (cases "calculateWinner b = Some hu")
      case True
      with nai assms(1) show ?thesis
        by (simp add: loss_in_lost minimax.simps score_fits_def)
    next
      case nhu: False
      show ?thesis
      proof (cases "getAvailableMoves b = []")
        case True
        with nai nhu show ?thesis
          by (subst minimax.simps, subst loss_in.simps) (simp add: score_fits_def)
      next
        case av: False
        let ?cs = "child_score b p ai hu d"
        let ?cl = "child_loss b p ai hu"
        let ?av = "getAvailableMoves b"
        have pos: "0 < count_empty b" using av by (simp add: count_empty_def)
        have ch: "score_fits (?cs i) (d + 1) (count_empty b - 1) (?cl i)" if "i \<in> set ?av" for i
        proof -
          have e: "Suc (count_empty (js_set b i p)) = count_empty b"
            using that by (rule count_empty_js_set)
          then have "count_empty (js_set b i p) < count_empty b" by simp
          moreover have "int (count_empty (js_set b i p)) + (d + 1) \<le> 9"
            using e less.prems by linarith
          ultimately have "score_fits
              (score (minimax (js_set b i p) (if p = ai then hu else ai) ai hu (d + 1)))
              (d + 1) (count_empty (js_set b i p))
              (loss_in (js_set b i p) (if p = ai then hu else ai) ai hu)"
            by (rule less.hyps)
          moreover have "count_empty (js_set b i p) = count_empty b - 1" using e by simp
          ultimately show ?thesis by (simp add: child_score_def child_loss_def)
        qed
        have bound: "int (count_empty b - 1) + (d + 1) \<le> 9" using pos less.prems by linarith
        show ?thesis
        proof (cases "p = ai")
          case True
          from minimax_choice_max [OF nai nhu av, of d] True obtain a1 i a2 where
            a: "?av = a1 @ i # a2" "score (minimax b p ai hu d) = ?cs i"
               "\<forall>j \<in> set a1. ?cs j < ?cs i" "\<forall>j \<in> set a2. ?cs j \<le> ?cs i"
            by auto
          have i: "i \<in> set ?av" using a(1) by simp
          have le: "?cs j \<le> ?cs i" if "j \<in> set ?av" for j
            using that a by auto
          have l: "loss_in b p ai hu = map_option Suc (latest (map ?cl ?av))"
            using loss_in_unfold [OF nai nhu av, of p] True by simp
          show ?thesis
          proof (cases "latest (map ?cl ?av)")
            case None
            then obtain j where j: "j \<in> set ?av" "?cl j = None"
              by (auto simp: latest_None)
            from ch [OF j(1)] j(2) have "0 \<le> ?cs j" by (simp add: score_fits_def)
            with le [OF j(1)] have "0 \<le> ?cs i" by simp
            with None l a(2) show ?thesis by (simp add: score_fits_def)
          next
            case (Some k)
            from latest_Some [OF Some] av obtain j where
              j: "j \<in> set ?av" "?cl j = Some k" and mx: "\<forall>x. Some x \<in> set (map ?cl ?av) \<longrightarrow> x \<le> k"
              by auto
            from Some have "None \<notin> set (map ?cl ?av)" using latest_None [of "map ?cl ?av"] by simp
            with i obtain k' where k': "?cl i = Some k'" by (cases "?cl i") force+
            with i mx have "k' \<le> k" by force
            from ch [OF i] k' have si: "?cs i = d + 1 + int k' - 10" "k' \<le> count_empty b - 1"
              by (simp_all add: score_fits_def)
            from ch [OF j(1)] j(2) have sj: "?cs j = d + 1 + int k - 10"
              by (simp add: score_fits_def)
            from le [OF j(1)] si sj have "k \<le> k'" by simp
            with \<open>k' \<le> k\<close> have "k' = k" by simp
            with si pos Some l a(2) show ?thesis by (simp add: score_fits_def)
          qed
        next
          case False
          from minimax_choice_min [OF nai nhu av False, of d] obtain a1 i a2 where
            a: "?av = a1 @ i # a2" "score (minimax b p ai hu d) = ?cs i"
               "\<forall>j \<in> set a1. ?cs i < ?cs j" "\<forall>j \<in> set a2. ?cs i \<le> ?cs j"
            by auto
          have i: "i \<in> set ?av" using a(1) by simp
          have le: "?cs i \<le> ?cs j" if "j \<in> set ?av" for j
            using that a by auto
          have l: "loss_in b p ai hu = map_option Suc (earliest (map ?cl ?av))"
            using loss_in_unfold [OF nai nhu av, of p] False by simp
          show ?thesis
          proof (cases "earliest (map ?cl ?av)")
            case None
            with i have "?cl i = None" by (simp add: earliest_None)
            with ch [OF i] have "0 \<le> ?cs i" by (simp add: score_fits_def)
            with None l a(2) show ?thesis by (simp add: score_fits_def)
          next
            case (Some k)
            from earliest_Some [OF Some] obtain j where
              j: "j \<in> set ?av" "?cl j = Some k" and mn: "\<forall>x. Some x \<in> set (map ?cl ?av) \<longrightarrow> k \<le> x"
              by auto
            from ch [OF j(1)] j(2) have sj: "?cs j = d + 1 + int k - 10" "k \<le> count_empty b - 1"
              by (simp_all add: score_fits_def)
            from score_fits_neg [OF ch [OF j(1), unfolded j(2)] bound] have "?cs j < 0" .
            with le [OF j(1)] have neg: "?cs i < 0" by simp
            with ch [OF i] obtain k' where k': "?cl i = Some k'"
              by (cases "?cl i") (simp_all add: score_fits_def)
            with i mn have "k \<le> k'" by force
            from ch [OF i] k' have si: "?cs i = d + 1 + int k' - 10"
              by (simp add: score_fits_def)
            from le [OF j(1)] si sj have "k' \<le> k" by simp
            with \<open>k \<le> k'\<close> have "k' = k" by simp
            with si sj pos Some l a(2) show ?thesis by (simp add: score_fits_def)
          qed
        qed
      qed
    qed
  qed
qed


section \<open>Delaying an unavoidable loss\<close>

lemma count_empty_le_length: "count_empty b \<le> length b"
  using getAvailableMoves_length [of b] by (simp add: count_empty_def)

lemma child_score_fits:
  assumes "ai \<noteq> hu" "length b = 9" "i \<in> set (getAvailableMoves b)"
  shows "score_fits (child_score b p ai hu 0 i) 1 (count_empty (js_set b i p))
           (child_loss b p ai hu i)"
    and "int (count_empty (js_set b i p)) + 1 \<le> 9"
proof -
  have "Suc (count_empty (js_set b i p)) = count_empty b"
    using assms(3) by (rule count_empty_js_set)
  with count_empty_le_length [of b] assms(2)
  show le: "int (count_empty (js_set b i p)) + 1 \<le> 9" by simp
  from score_loss [OF assms(1) le, of "if p = ai then hu else ai"]
  show "score_fits (child_score b p ai hu 0 i) 1 (count_empty (js_set b i p))
           (child_loss b p ai hu i)"
    by (simp add: child_score_def child_loss_def)
qed

text \<open>
  C7. On a board of 9 cells without winner, with a legal move, from which every move
  of the engine's side leads to its loss when both sides play as well as they can,
  \<open>chooseMove\<close> returns a legal move after which the loss comes as late as after any
  other move.
\<close>

theorem delays_unavoidable_loss:
  assumes "ai \<noteq> hu" "length b = 9" "calculateWinner b = None" "getAvailableMoves b \<noteq> []"
    "\<forall>i \<in> set (getAvailableMoves b). child_loss b ai ai hu i \<noteq> None"
  shows "\<exists>i \<in> set (getAvailableMoves b). \<exists>k.
     chooseMove b ai hu = Some i \<and> child_loss b ai ai hu i = Some k
     \<and> (\<forall>j \<in> set (getAvailableMoves b). \<forall>k'. child_loss b ai ai hu j = Some k' \<longrightarrow> k' \<le> k)"
proof -
  let ?cs = "child_score b ai ai hu 0"
  let ?cl = "child_loss b ai ai hu"
  have nw: "calculateWinner b \<noteq> Some ai" "calculateWinner b \<noteq> Some hu"
    using assms(3) by simp_all
  from minimax_choice_max [OF nw assms(4), of 0] obtain a1 i a2 where
    a: "getAvailableMoves b = a1 @ i # a2"
       "minimax b ai ai hu 0 = \<lparr>index = Some i, score = ?cs i\<rparr>"
       "\<forall>j \<in> set a1. ?cs j < ?cs i" "\<forall>j \<in> set a2. ?cs j \<le> ?cs i"
    by blast
  have i: "i \<in> set (getAvailableMoves b)" using a(1) by simp
  have le: "?cs j \<le> ?cs i" if "j \<in> set (getAvailableMoves b)" for j
    using that a by auto
  have val: "?cs j = 1 + int k' - 10" if "j \<in> set (getAvailableMoves b)" "?cl j = Some k'" for j k'
    using child_score_fits(1) [OF assms(1,2) that(1), of ai] that(2)
    by (simp add: score_fits_def)
  from assms(5) i obtain k where k: "?cl i = Some k" by auto
  have "k' \<le> k" if "j \<in> set (getAvailableMoves b)" "?cl j = Some k'" for j k'
    using le [OF that(1)] val [OF that] val [OF i k] by simp
  moreover have "chooseMove b ai hu = Some i" using a(2) by (simp add: chooseMove_def)
  ultimately show ?thesis using i k by blast
qed


lemma loss_in_open:
  "calculateWinner b = None \<Longrightarrow>
   loss_in b p ai hu =
     (if getAvailableMoves b = [] then None
      else map_option Suc
        (if p = ai then latest (map (\<lambda>i. loss_in (js_set b i p) hu ai hu) (getAvailableMoves b))
         else earliest (map (\<lambda>i. loss_in (js_set b i p) ai ai hu) (getAvailableMoves b))))"
  by (subst loss_in.simps) (simp add: Let_def)

lemmas loss_in_eval =
  calculateWinner_9 getAvailableMoves_9 js_set_9 loss_in_won loss_in_lost loss_in_open

lemma trap_losses:
  "child_loss [Some MarkX, Some MarkO, None, None, Some MarkX, None, None, None, None]
     MarkO MarkO MarkX 2 = Some 1"
  "child_loss [Some MarkX, Some MarkO, None, None, Some MarkX, None, None, None, None]
     MarkO MarkO MarkX 3 = Some 1"
  "child_loss [Some MarkX, Some MarkO, None, None, Some MarkX, None, None, None, None]
     MarkO MarkO MarkX 5 = Some 1"
  "child_loss [Some MarkX, Some MarkO, None, None, Some MarkX, None, None, None, None]
     MarkO MarkO MarkX 6 = Some 1"
  "child_loss [Some MarkX, Some MarkO, None, None, Some MarkX, None, None, None, None]
     MarkO MarkO MarkX 7 = Some 1"
  "child_loss [Some MarkX, Some MarkO, None, None, Some MarkX, None, None, None, None]
     MarkO MarkO MarkX 8 = Some 3"
  by (simp_all add: child_loss_def loss_in_eval)

theorem delays_unavoidable_loss_witness:
  "MarkO \<noteq> MarkX
   \<and> length [Some MarkX, Some MarkO, None, None, Some MarkX, None, None, None, None] = 9
   \<and> calculateWinner [Some MarkX, Some MarkO, None, None, Some MarkX, None, None, None, None]
       = None
   \<and> getAvailableMoves [Some MarkX, Some MarkO, None, None, Some MarkX, None, None, None, None]
       = [2, 3, 5, 6, 7, 8]
   \<and> child_loss [Some MarkX, Some MarkO, None, None, Some MarkX, None, None, None, None]
       MarkO MarkO MarkX 2 = Some 1
   \<and> child_loss [Some MarkX, Some MarkO, None, None, Some MarkX, None, None, None, None]
       MarkO MarkO MarkX 8 = Some 3
   \<and> chooseMove [Some MarkX, Some MarkO, None, None, Some MarkX, None, None, None, None]
       MarkO MarkX = Some 8"
proof -
  let ?b = "[Some MarkX, Some MarkO, None, None, Some MarkX, None, None, None, None]"
  let ?cl = "child_loss ?b MarkO MarkO MarkX"
  have d: "MarkO \<noteq> MarkX" by simp
  have l: "length ?b = 9" by simp
  have w: "calculateWinner ?b = None" by (simp add: calculateWinner_9)
  have m: "getAvailableMoves ?b = [2, 3, 5, 6, 7, 8]" by (simp add: getAvailableMoves_9)
  have ne: "getAvailableMoves ?b \<noteq> []" by (simp add: m)
  have al: "\<forall>i \<in> set (getAvailableMoves ?b). ?cl i \<noteq> None"
    by (simp add: m trap_losses)
  from delays_unavoidable_loss [OF d l w ne al] obtain i k where
    i: "i \<in> set (getAvailableMoves ?b)" "chooseMove ?b MarkO MarkX = Some i" "?cl i = Some k"
       "\<forall>j \<in> set (getAvailableMoves ?b). \<forall>k'. ?cl j = Some k' \<longrightarrow> k' \<le> k"
    by blast
  from i(4) have "3 \<le> k" by (simp add: m trap_losses)
  with i(1,3) have "i = 8" by (auto simp: m trap_losses)
  with i(2) d l w m show ?thesis by (simp add: trap_losses)
qed

section \<open>The engine never loses\<close>

lemma first_such_iff: "first_such P xs \<longleftrightarrow> (\<exists>x \<in> set xs. P x)"
  by (induction xs) auto

lemma each_such_iff: "each_such P xs \<longleftrightarrow> (\<forall>x \<in> set xs. P x)"
  by (induction xs) auto

lemma holds_search_sound:
  assumes "ai \<noteq> hu"
  shows "holds_search n order b p ai hu \<Longrightarrow> loss_in b p ai hu = None"
proof (induction n arbitrary: b p)
  case 0
  then show ?case by (simp add: holds_search.simps)
next
  case (Suc n)
  show ?case
  proof (cases "calculateWinner b = Some ai")
    case True
    then show ?thesis by (rule loss_in_won)
  next
    case nai: False
    have nhu: "calculateWinner b \<noteq> Some hu"
      using Suc.prems nai by (auto simp: holds_search.simps)
    show ?thesis
    proof (cases "getAvailableMoves b = []")
      case True
      with nai nhu show ?thesis by (subst loss_in.simps) simp
    next
      case av: False
      show ?thesis
      proof (cases "p = ai")
        case True
        from Suc.prems nai nhu av True obtain i where
          i: "i < length b" "cell_at b i = None" "holds_search n order (js_set b i ai) hu ai hu"
          by (auto simp: holds_search.simps first_such_iff)
        from i(1,2) have mem: "i \<in> set (getAvailableMoves b)"
          by (simp add: getAvailableMoves_set cell_at_def)
        from Suc.IH [OF i(3)] True have "child_loss b p ai hu i = None"
          by (simp add: child_loss_def)
        with mem have "None \<in> set (map (child_loss b p ai hu) (getAvailableMoves b))"
          by force
        then have "latest (map (child_loss b p ai hu) (getAvailableMoves b)) = None"
          by (simp only: latest_None)
        with loss_in_unfold [OF nai nhu av, of p] True show ?thesis by simp
      next
        case False
        from Suc.prems nai nhu av False have
          "\<forall>i \<in> set (getAvailableMoves b). holds_search n order (js_set b i p) ai ai hu"
          by (auto simp: holds_search.simps each_such_iff)
        with Suc.IH False have "\<forall>i \<in> set (getAvailableMoves b). child_loss b p ai hu i = None"
          by (simp add: child_loss_def)
        then have "earliest (map (child_loss b p ai hu) (getAvailableMoves b)) = None"
          by (simp add: earliest_None)
        with loss_in_unfold [OF nai nhu av, of p] False show ?thesis by simp
      qed
    qed
  qed
qed

lemma length_js_set:
  "i \<in> set (getAvailableMoves b) \<Longrightarrow> length (js_set b i p) = length b"
  by (simp add: getAvailableMoves_set js_set_def)

lemma loss_in_not_lost:
  "ai \<noteq> hu \<Longrightarrow> loss_in b p ai hu = None \<Longrightarrow> calculateWinner b \<noteq> Some hu"
  using loss_in_lost [of b hu ai p] by auto

text \<open>The move of the engine keeps its side from losing.\<close>

lemma engine_move_safe:
  assumes "ai \<noteq> hu" "length b = 9" "calculateWinner b = None"
    "loss_in b ai ai hu = None" "chooseMove b ai hu = Some i"
  shows "i \<in> set (getAvailableMoves b)" and "loss_in (js_set b i ai) hu ai hu = None"
proof -
  show mem: "i \<in> set (getAvailableMoves b)"
    using assms(5) minimax_index_legal [of b ai ai hu 0 i] by (simp add: chooseMove_def)
  then have av: "getAvailableMoves b \<noteq> []" by auto
  have nw: "calculateWinner b \<noteq> Some ai" "calculateWinner b \<noteq> Some hu"
    using assms(3) by simp_all
  from minimax_choice_max [OF nw av, of 0] assms(5)
  have sc: "score (minimax b ai ai hu 0) = child_score b ai ai hu 0 i"
    by (auto simp: chooseMove_def)
  have "int (count_empty b) + 0 \<le> 9"
    using count_empty_le_length [of b] assms(2) by simp
  from score_loss [OF assms(1) this, of ai] assms(4)
  have "0 \<le> score (minimax b ai ai hu 0)" by (simp add: score_fits_def)
  with sc have nonneg: "0 \<le> child_score b ai ai hu 0 i" by simp
  show "loss_in (js_set b i ai) hu ai hu = None"
  proof (cases "child_loss b ai ai hu i")
    case None
    then show ?thesis by (simp add: child_loss_def)
  next
    case (Some k)
    from child_score_fits [OF assms(1,2) mem, of ai] Some
    have "child_score b ai ai hu 0 i < 0"
      using score_fits_neg [of "child_score b ai ai hu 0 i" 1 "count_empty (js_set b i ai)" k]
      by simp
    with nonneg show ?thesis by simp
  qed
qed

text \<open>No move of the other side makes the engine's side lose.\<close>

lemma free_move_safe:
  assumes "ai \<noteq> hu" "calculateWinner b = None" "loss_in b hu ai hu = None"
    "i \<in> set (getAvailableMoves b)"
  shows "loss_in (js_set b i hu) ai ai hu = None"
proof -
  have nw: "calculateWinner b \<noteq> Some ai" "calculateWinner b \<noteq> Some hu"
    using assms(2) by simp_all
  have av: "getAvailableMoves b \<noteq> []" using assms(4) by auto
  from loss_in_unfold [OF nw av, of hu] assms(1,3)
  have "earliest (map (child_loss b hu ai hu) (getAvailableMoves b)) = None" by auto
  with assms(4) have "child_loss b hu ai hu i = None" by (simp add: earliest_None)
  with assms(1) show ?thesis by (auto simp: child_loss_def)
qed


text \<open>From the empty board neither side loses when it plays well: a search finds how.\<close>

lemma holds_search_numeral:
  "holds_search (numeral k) order b p ai hu = holds_search (Suc (pred_numeral k)) order b p ai hu"
  by (simp add: numeral_eq_Suc)

lemmas holds_search_9 =
  holds_search.simps(1)
  holds_search.simps(2) [where b = "[c0, c1, c2, c3, c4, c5, c6, c7, c8]" and n = 0,
    folded One_nat_def]
  holds_search.simps(2) [where b = "[c0, c1, c2, c3, c4, c5, c6, c7, c8]"
    and n = "pred_numeral k", folded holds_search_numeral]
  for c0 c1 c2 c3 c4 c5 c6 c7 c8 k

lemma empty_board: "replicate 9 None = [None, None, None, None, None, None, None, None, None]"
  by (simp add: numeral_eq_Suc)

lemma length_9: "length [c0, c1, c2, c3, c4, c5, c6, c7, c8] = 9"
  by simp

lemmas holds_search_eval =
  empty_board holds_search_9 cell_at_9 calculateWinner_9 getAvailableMoves_9 js_set_9
  length_9 first_such.simps each_such.simps filter.simps append.simps list.simps
  if_True if_False simp_thms option.distinct option.inject mark.distinct
  pred_numeral_simps BitM.simps numeral_One rel_simps

lemma empty_board_search:
  "holds_search 10 [4, 6, 2, 8, 5, 3, 1, 7, 0] (replicate 9 None) MarkX MarkX MarkO"
  "holds_search 10 [4, 6, 2, 8, 5, 3, 1, 7, 0] (replicate 9 None) MarkO MarkX MarkO"
  "holds_search 10 [4, 6, 2, 8, 5, 3, 1, 7, 0] (replicate 9 None) MarkX MarkO MarkX"
  "holds_search 10 [4, 6, 2, 8, 5, 3, 1, 7, 0] (replicate 9 None) MarkO MarkO MarkX"
  by (simp_all only: holds_search_eval cong: if_weak_cong)

lemma empty_board_safe:
  assumes "ai \<noteq> hu"
  shows "loss_in (replicate 9 None) p ai hu = None"
proof -
  have "holds_search 10 [4, 6, 2, 8, 5, 3, 1, 7, 0] (replicate 9 None) p ai hu"
    using assms empty_board_search by (cases ai; cases hu; cases p) simp_all
  then show ?thesis by (rule holds_search_sound [OF assms])
qed

lemma playout_invariant:
  assumes "ai \<noteq> hu" "playout ai hu b p"
  shows "length b = 9 \<and> (p = ai \<or> p = hu) \<and> loss_in b p ai hu = None"
  using assms(2)
proof (induction rule: playout.induct)
  case (start p)
  then show ?case using empty_board_safe [OF assms(1)] by simp
next
  case (engine b i)
  then show ?case
    using engine_move_safe [OF assms(1), of b i] by (simp add: length_js_set)
next
  case (free b i)
  then show ?case
    using free_move_safe [OF assms(1), of b i] by (simp add: length_js_set)
qed

lemma other_cases: "other p \<noteq> p" "m = p \<or> m = other p"
  by (cases p; cases m; simp)+

lemma selfplay_playout:
  "selfplay b p \<Longrightarrow> playout p (other p) b p \<and> playout (other p) p b p"
proof (induction rule: selfplay.induct)
  case (start p)
  show ?case by (simp add: playout.start)
next
  case (engine b p i)
  have mem: "i \<in> set (getAvailableMoves b)"
    using engine(3) minimax_index_legal [of b p p "other p" 0 i] by (simp add: chooseMove_def)
  have oo: "other (other p) = p" by (cases p) simp_all
  from engine have "playout p (other p) (js_set b i p) (other p)"
    by (auto intro: playout.engine)
  moreover from engine mem have "playout (other p) p (js_set b i p) (other p)"
    by (auto intro: playout.free)
  ultimately show ?case by (simp add: oo)
qed

text \<open>
  C1. In every play-out from the empty board in which the moves of one side are chosen
  by \<open>minimax\<close> (called with that side to move and maximizing, at depth 0) and the
  other side makes any legal moves, no board shows a completed line of the other side,
  and the engine has a move whenever the game is not over. In every play-out in which
  the engine chooses the moves of both sides no line is ever completed: the game is a
  draw.
\<close>

theorem engine_never_loses:
  "(ai \<noteq> hu \<and> playout ai hu b p \<longrightarrow>
      calculateWinner b \<noteq> Some hu
      \<and> (p = ai \<and> calculateWinner b = None \<and> getAvailableMoves b \<noteq> [] \<longrightarrow>
           (\<exists>i. chooseMove b ai hu = Some i)))
   \<and> (selfplay b p \<longrightarrow> calculateWinner b = None)"
proof -
  have a: "calculateWinner b \<noteq> Some hu" if "ai \<noteq> hu" "playout ai hu b p" for ai hu
    using playout_invariant [OF that] loss_in_not_lost [OF that(1)] by blast
  have m: "\<exists>i. chooseMove b ai hu = Some i"
    if "calculateWinner b = None" "getAvailableMoves b \<noteq> []"
  proof -
    have nw: "calculateWinner b \<noteq> Some ai" "calculateWinner b \<noteq> Some hu"
      using that(1) by simp_all
    from minimax_choice_max [OF nw that(2), of 0] show ?thesis
      by (auto simp: chooseMove_def)
  qed
  have s: "calculateWinner b = None" if "selfplay b p"
  proof -
    from selfplay_playout [OF that]
    have "calculateWinner b \<noteq> Some (other p)" "calculateWinner b \<noteq> Some p"
      using a [of p "other p"] a [of "other p" p] other_cases(1) [of p] by auto
    then show ?thesis using other_cases(2) [of _ p] by (cases "calculateWinner b") auto
  qed
  show ?thesis using a m s by blast
qed

theorem engine_never_loses_witness:
  "MarkO \<noteq> MarkX
   \<and> playout MarkO MarkX [None, None, None, None, Some MarkX, None, None, None, None] MarkO
   \<and> calculateWinner [None, None, None, None, Some MarkX, None, None, None, None] \<noteq> Some MarkX
   \<and> (\<exists>i. chooseMove [None, None, None, None, Some MarkX, None, None, None, None]
             MarkO MarkX = Some i
          \<and> playout MarkO MarkX
               (js_set [None, None, None, None, Some MarkX, None, None, None, None] i MarkO)
               MarkX
          \<and> calculateWinner
               (js_set [None, None, None, None, Some MarkX, None, None, None, None] i MarkO)
              \<noteq> Some MarkX)
   \<and> selfplay (replicate 9 None) MarkX
   \<and> calculateWinner (replicate 9 None) = None"
proof -
  let ?b = "[None, None, None, None, Some MarkX, None, None, None, None]"
  have d: "MarkO \<noteq> MarkX" by simp
  have p0: "playout MarkO MarkX (replicate 9 None) MarkX" by (rule playout.start) simp
  have w0: "calculateWinner (replicate 9 None) = None"
    by (simp add: empty_board calculateWinner_9)
  have m0: "4 \<in> set (getAvailableMoves (replicate 9 None))"
    by (simp add: empty_board getAvailableMoves_9)
  have "playout MarkO MarkX (js_set (replicate 9 None) 4 MarkX) MarkO"
    using p0 w0 m0 by (rule playout.free)
  then have p1: "playout MarkO MarkX ?b MarkO" by (simp add: empty_board js_set_9)
  have w1: "calculateWinner ?b = None" by (simp add: calculateWinner_9)
  have a1: "getAvailableMoves ?b \<noteq> []" by (simp add: getAvailableMoves_9)
  from engine_never_loses [of MarkO MarkX ?b MarkO] d p1 w1 a1
  have n1: "calculateWinner ?b \<noteq> Some MarkX"
    and "\<exists>i. chooseMove ?b MarkO MarkX = Some i" by blast+
  then obtain i where i: "chooseMove ?b MarkO MarkX = Some i" by blast
  have p2: "playout MarkO MarkX (js_set ?b i MarkO) MarkX"
    using p1 w1 i by (rule playout.engine)
  with engine_never_loses [of MarkO MarkX "js_set ?b i MarkO" MarkX] d
  have n2: "calculateWinner (js_set ?b i MarkO) \<noteq> Some MarkX" by blast
  have s: "selfplay (replicate 9 None) MarkX" by (rule selfplay.start)
  with engine_never_loses [of _ _ "replicate 9 None" MarkX]
  have e: "calculateWinner (replicate 9 None) = None" by blast
  from d p1 n1 i p2 n2 s e show ?thesis by blast
qed

end
